theory Spec2Isabelle
  imports Complex_Main
begin

section \<open>Numbers, rows and enumerations\<close>

text \<open>
  The numeric core of the calculator (\<^verbatim>\<open>lib/financial.ts\<close>, \<^verbatim>\<open>lib/solver.ts\<close>,
  \<^verbatim>\<open>lib/amortization.ts\<close>) computes on the TypeScript type \<^verbatim>\<open>number\<close>, an IEEE 754
  binary64 value. The development reads the code in two ways.

  The first part reads every \<^verbatim>\<open>number\<close> as a \<^typ>\<open>real\<close>: its results are statements
  about the formulas in exact arithmetic, with no rounding and no overflow. A loop counter
  that starts at an integer literal and is only ever incremented by one is a \<^typ>\<open>nat\<close>.
  A \<^verbatim>\<open>number | null\<close> result is a \<^typ>\<open>real option\<close>, \<^verbatim>\<open>null\<close> being \<^term>\<open>None\<close>.

  The second part (section \<open>Double precision\<close>) models binary64 itself, with rounding to
  nearest even, overflow to infinity, signed zeros and \<^verbatim>\<open>NaN\<close>, and transcribes again the
  functions for which rounding or overflow decides what the program returns:
  \<^verbatim>\<open>calculateFV\<close>, \<^verbatim>\<open>calculatePV\<close>, \<^verbatim>\<open>calculateNPV\<close>, \<^verbatim>\<open>calculateIRR\<close> and
  \<^verbatim>\<open>bisectionMethod\<close>. Their names carry the suffix \<open>_d\<close>.
\<close>

datatype PaymentTiming = Begin | End

datatype ScheduleType = Shpitzer | Regular | Balloon | Grace

record AMRTRow =
  period :: nat
  principalPayment :: real
  interestPayment :: real
  totalPayment :: real
  remainingBalance :: real

section \<open>Amortization engine\<close>

subsection \<open>Balloon schedule\<close>

text \<open>
  \<^verbatim>\<open>generateBalloonSchedule\<close>: the body of the \<^verbatim>\<open>for\<close> loop builds one row from the
  loop counter alone; the loop runs while \<^verbatim>\<open>period <= periods\<close> and pushes the rows in
  order.
\<close>

definition balloon_row :: "real \<Rightarrow> real \<Rightarrow> real \<Rightarrow> PaymentTiming \<Rightarrow> nat \<Rightarrow> AMRTRow" where
  "balloon_row principal' r periods paymentTiming p =
     (let (interest, principalPmt, remaining) =
            (if real p < periods
             then ((if paymentTiming = Begin then principal' * r else principal' * r),
                   0, principal')
             else ((if paymentTiming = Begin then 0 else principal' * r),
                   principal', 0))
      in \<lparr> period = p,
           principalPayment = principalPmt,
           interestPayment = interest,
           totalPayment = principalPmt + interest,
           remainingBalance = remaining \<rparr>)"

function balloon_loop :: "real \<Rightarrow> real \<Rightarrow> real \<Rightarrow> PaymentTiming \<Rightarrow> nat \<Rightarrow> AMRTRow list" where
  "balloon_loop principal' r periods paymentTiming p =
     (if real p \<le> periods
      then balloon_row principal' r periods paymentTiming p
             # balloon_loop principal' r periods paymentTiming (Suc p)
      else [])"
  by pat_completeness auto
termination
  by (relation "measure (\<lambda>(principal', r, periods, paymentTiming, p). nat \<lfloor>periods\<rfloor> + 1 - p)")
     (auto dest: le_nat_floor)

declare balloon_loop.simps [simp del]

definition generateBalloonSchedule :: "real \<Rightarrow> real \<Rightarrow> real \<Rightarrow> PaymentTiming \<Rightarrow> AMRTRow list" where
  "generateBalloonSchedule principal' rate periods paymentTiming =
     balloon_loop principal' (rate / 100) periods paymentTiming 1"

subsection \<open>Grace schedule\<close>

text \<open>
  \<^verbatim>\<open>generateGraceSchedule\<close> takes \<^verbatim>\<open>gracePeriods\<close> as its fourth argument; the body
  never reads it.
\<close>

definition grace_row :: "real \<Rightarrow> real \<Rightarrow> real \<Rightarrow> nat \<Rightarrow> AMRTRow" where
  "grace_row principal' r periods p =
     (let (interest, principalPmt, remaining) =
            (if real p < periods
             then (principal' * r, 0, principal')
             else (principal' * r, principal', 0))
      in \<lparr> period = p,
           principalPayment = principalPmt,
           interestPayment = interest,
           totalPayment = principalPmt + interest,
           remainingBalance = remaining \<rparr>)"

function grace_loop :: "real \<Rightarrow> real \<Rightarrow> real \<Rightarrow> nat \<Rightarrow> AMRTRow list" where
  "grace_loop principal' r periods p =
     (if real p \<le> periods
      then grace_row principal' r periods p # grace_loop principal' r periods (Suc p)
      else [])"
  by pat_completeness auto
termination
  by (relation "measure (\<lambda>(principal', r, periods, p). nat \<lfloor>periods\<rfloor> + 1 - p)")
     (auto dest: le_nat_floor)

declare grace_loop.simps [simp del]

definition generateGraceSchedule ::
  "real \<Rightarrow> real \<Rightarrow> real \<Rightarrow> real \<Rightarrow> PaymentTiming \<Rightarrow> AMRTRow list" where
  "generateGraceSchedule principal' rate periods gracePeriods paymentTiming =
     grace_loop principal' (rate / 100) periods 1"

subsection \<open>Shpitzer schedule (equal principal payments)\<close>

text \<open>
  \<^verbatim>\<open>generateShpitzerSchedule\<close>: \<^verbatim>\<open>remainingBalance\<close> is the one variable the loop
  carries from one iteration to the next. \<open>shpitzer_step\<close> is the loop body: it returns
  the row pushed and the balance after \<^verbatim>\<open>remainingBalance -= actualPrincipalPayment\<close>
  (the row stores that balance clamped by \<^verbatim>\<open>Math.max(0, _)\<close>, the variable is not clamped).
\<close>

definition shpitzer_step :: "real \<Rightarrow> real \<Rightarrow> PaymentTiming \<Rightarrow> nat \<Rightarrow> real \<Rightarrow> AMRTRow \<times> real" where
  "shpitzer_step principalPayment' r paymentTiming p remainingBalance' =
     (let (interest, actualPrincipalPayment) =
            (if paymentTiming = Begin
             then (let actual = min principalPayment' remainingBalance';
                       balanceAfterPrincipal = remainingBalance' - actual
                   in (balanceAfterPrincipal * r, actual))
             else (remainingBalance' * r, min principalPayment' remainingBalance'));
          total = actualPrincipalPayment + interest;
          newBalance = remainingBalance' - actualPrincipalPayment
      in (\<lparr> period = p,
            principalPayment = actualPrincipalPayment,
            interestPayment = interest,
            totalPayment = total,
            remainingBalance = max 0 newBalance \<rparr>, newBalance))"

function shpitzer_loop ::
  "real \<Rightarrow> real \<Rightarrow> real \<Rightarrow> PaymentTiming \<Rightarrow> nat \<Rightarrow> real \<Rightarrow> AMRTRow list" where
  "shpitzer_loop principalPayment' r periods paymentTiming p remainingBalance' =
     (if real p \<le> periods
      then fst (shpitzer_step principalPayment' r paymentTiming p remainingBalance')
             # shpitzer_loop principalPayment' r periods paymentTiming (Suc p)
                 (snd (shpitzer_step principalPayment' r paymentTiming p remainingBalance'))
      else [])"
  by pat_completeness auto
termination
  by (relation "measure (\<lambda>(principalPayment', r, periods, paymentTiming, p, remainingBalance').
                  nat \<lfloor>periods\<rfloor> + 1 - p)")
     (auto dest: le_nat_floor)

declare shpitzer_loop.simps [simp del]

definition generateShpitzerSchedule :: "real \<Rightarrow> real \<Rightarrow> real \<Rightarrow> PaymentTiming \<Rightarrow> AMRTRow list" where
  "generateShpitzerSchedule principal' rate periods paymentTiming =
     shpitzer_loop (principal' / periods) (rate / 100) periods paymentTiming 1 principal'"

subsection \<open>Regular schedule (equal total payments)\<close>

text \<open>
  \<^verbatim>\<open>Math.pow(x, y)\<close> in exact arithmetic: an integral exponent is a (possibly negative)
  integer power, any other exponent is the real power of a positive base. The two agree
  on a positive base. ECMAScript gives \<^verbatim>\<open>NaN\<close> for a negative base with a fractional
  exponent and \<^verbatim>\<open>Infinity\<close> for a zero base with a negative exponent; neither is a real
  number, and the results below that use \<open>Math_pow\<close> keep the base \<open>1 + r\<close> at least 1.
\<close>

definition Math_pow :: "real \<Rightarrow> real \<Rightarrow> real" where
  "Math_pow x y = (if y = of_int \<lfloor>y\<rfloor> then x powi \<lfloor>y\<rfloor> else x powr y)"

text \<open>The fixed payment amount computed before the loop of \<^verbatim>\<open>generateRegularSchedule\<close>.\<close>

definition regular_pmt :: "real \<Rightarrow> real \<Rightarrow> real \<Rightarrow> PaymentTiming \<Rightarrow> real" where
  "regular_pmt principal' r periods paymentTiming =
     (if r = 0 then principal' / periods
      else if paymentTiming = Begin
           then (principal' * r) / ((1 - Math_pow (1 + r) (- periods)) * (1 + r))
           else (principal' * r) / (1 - Math_pow (1 + r) (- periods)))"

definition regular_step :: "real \<Rightarrow> real \<Rightarrow> PaymentTiming \<Rightarrow> nat \<Rightarrow> real \<Rightarrow> AMRTRow \<times> real" where
  "regular_step pmt r paymentTiming p remainingBalance' =
     (let (interest, principalPmt) =
            (if paymentTiming = Begin
             then (let pp = min (pmt / (1 + r)) remainingBalance';
                       balanceAfterPrincipal = remainingBalance' - pp
                   in (balanceAfterPrincipal * r, pp))
             else (let i = remainingBalance' * r
                   in (i, min (pmt - i) remainingBalance')));
          total = principalPmt + interest;
          newBalance = remainingBalance' - principalPmt
      in (\<lparr> period = p,
            principalPayment = principalPmt,
            interestPayment = interest,
            totalPayment = total,
            remainingBalance = max 0 newBalance \<rparr>, newBalance))"

function regular_loop ::
  "real \<Rightarrow> real \<Rightarrow> real \<Rightarrow> PaymentTiming \<Rightarrow> nat \<Rightarrow> real \<Rightarrow> AMRTRow list" where
  "regular_loop pmt r periods paymentTiming p remainingBalance' =
     (if real p \<le> periods
      then fst (regular_step pmt r paymentTiming p remainingBalance')
             # regular_loop pmt r periods paymentTiming (Suc p)
                 (snd (regular_step pmt r paymentTiming p remainingBalance'))
      else [])"
  by pat_completeness auto
termination
  by (relation "measure (\<lambda>(pmt, r, periods, paymentTiming, p, remainingBalance').
                  nat \<lfloor>periods\<rfloor> + 1 - p)")
     (auto dest: le_nat_floor)

declare regular_loop.simps [simp del]

definition generateRegularSchedule :: "real \<Rightarrow> real \<Rightarrow> real \<Rightarrow> PaymentTiming \<Rightarrow> AMRTRow list" where
  "generateRegularSchedule principal' rate periods paymentTiming =
     (let r = rate / 100
      in regular_loop (regular_pmt principal' r periods paymentTiming) r periods
           paymentTiming 1 principal')"

subsection \<open>Dispatch on the schedule type\<close>

text \<open>
  \<^verbatim>\<open>generateSchedule\<close>: the optional \<^verbatim>\<open>gracePeriods\<close> is a \<^typ>\<open>real option\<close>;
  \<^verbatim>\<open>gracePeriods || periods\<close> takes \<^verbatim>\<open>periods\<close> when the argument is absent or zero.
  The \<^verbatim>\<open>default\<close> branch of the switch is unreachable for the four-valued type.
\<close>

definition generateSchedule ::
  "real \<Rightarrow> real \<Rightarrow> real \<Rightarrow> ScheduleType \<Rightarrow> PaymentTiming \<Rightarrow> real option \<Rightarrow> AMRTRow list" where
  "generateSchedule principal' rate periods scheduleType paymentTiming gracePeriods =
     (case scheduleType of
        Shpitzer \<Rightarrow> generateShpitzerSchedule principal' rate periods paymentTiming
      | Regular \<Rightarrow> generateRegularSchedule principal' rate periods paymentTiming
      | Balloon \<Rightarrow> generateBalloonSchedule principal' rate periods paymentTiming
      | Grace \<Rightarrow>
          generateGraceSchedule principal' rate periods
            (case gracePeriods of
               None \<Rightarrow> periods
             | Some g \<Rightarrow> if g = 0 then periods else g)
            paymentTiming)"

section \<open>Time-value-of-money engine\<close>

subsection \<open>Future value with variable rates\<close>

text \<open>
  \<^verbatim>\<open>calculateFVVariable\<close> walks \<^verbatim>\<open>variableRates\<close> from index 0 to its last index,
  updating \<^verbatim>\<open>fv\<close>; the walk is a recursion over the list with \<^verbatim>\<open>fv\<close> as accumulator.
\<close>

fun fvVariable_loop :: "real \<Rightarrow> PaymentTiming \<Rightarrow> real list \<Rightarrow> real \<Rightarrow> real" where
  "fvVariable_loop pmt paymentTiming [] fv = fv"
| "fvVariable_loop pmt paymentTiming (rate_i # rest) fv =
     (let r = rate_i / 100
      in fvVariable_loop pmt paymentTiming rest
           (if paymentTiming = Begin then (fv + pmt) * (1 + r) else fv * (1 + r) + pmt))"

definition calculateFVVariable :: "real \<Rightarrow> real list \<Rightarrow> real \<Rightarrow> PaymentTiming \<Rightarrow> real" where
  "calculateFVVariable pv variableRates pmt paymentTiming =
     fvVariable_loop pmt paymentTiming variableRates pv"


subsection \<open>Future and present value at a fixed rate\<close>



subsection \<open>Net present value and internal rate of return\<close>







section \<open>Root finder\<close>

text \<open>
  \<^verbatim>\<open>bisectionMethod\<close>: after the sign test on the endpoints the loop carries \<^verbatim>\<open>a\<close>,
  \<^verbatim>\<open>b\<close>, \<^verbatim>\<open>fa\<close> and \<^verbatim>\<open>fb\<close>; it runs while \<^verbatim>\<open>i < maxIterations\<close> and returns from
  inside on convergence, or the midpoint of the last bracket at the end.
\<close>

function bisection_loop ::
  "(real \<Rightarrow> real) \<Rightarrow> real \<Rightarrow> real \<Rightarrow> nat \<Rightarrow> real \<Rightarrow> real \<Rightarrow> real \<Rightarrow> real \<Rightarrow> real" where
  "bisection_loop func tolerance maxIterations i a b fa fb =
     (if real i < maxIterations
      then (let c = (a + b) / 2; fc = func c
            in if \<bar>fc\<bar> < tolerance \<or> \<bar>b - a\<bar> < tolerance then c
               else if fa * fc < 0
                    then bisection_loop func tolerance maxIterations (Suc i) a c fa fc
                    else bisection_loop func tolerance maxIterations (Suc i) c b fc fb)
      else (a + b) / 2)"
  by pat_completeness auto
termination
  by (relation "measure (\<lambda>(func, tolerance, maxIterations, i, a, b, fa, fb).
                  nat \<lceil>maxIterations\<rceil> - i)")
     (auto simp: less_ceiling_iff zless_nat_eq_int_zless intro!: diff_less_mono2)

declare bisection_loop.simps [simp del]

definition bisectionMethod ::
  "(real \<Rightarrow> real) \<Rightarrow> real \<Rightarrow> real \<Rightarrow> real \<Rightarrow> real \<Rightarrow> real option" where
  "bisectionMethod func a b tolerance maxIterations =
     (let fa = func a; fb = func b
      in if fa * fb > 0 then None
         else Some (bisection_loop func tolerance maxIterations 0 a b fa fb))"

section \<open>Double precision\<close>

subsection \<open>Values and rounding\<close>

text \<open>
  A binary64 value is \<^verbatim>\<open>NaN\<close>, an infinity with its sign, or a finite value given by its
  sign (\<^term>\<open>True\<close> for negative) and its magnitude; \<open>Finite True 0\<close> is the negative
  zero. The magnitude of a value produced by an operation is always a \<open>representable\<close>
  number: an integer below \<open>2\<^sup>5\<^sup>3\<close> times a power of two not below \<open>2\<^sup>-\<^sup>1\<^sup>0\<^sup>7\<^sup>4\<close>.
\<close>

datatype double = NaN | Infinity bool | Finite bool real

definition representable :: "real \<Rightarrow> bool" where
  "representable m = (\<exists>n k. m = of_int n * 2 powi k \<and> 0 \<le> n \<and> n < 2 ^ 53 \<and> - 1074 \<le> k)"

text \<open>
  Rounding of a magnitude \<open>m > 0\<close>: its binade is \<open>\<lfloor>log\<^sub>2 m\<rfloor>\<close>, not below that of the
  least normal number; the spacing of binary64 values there is \<open>ulp m\<close> (53 significant
  bits); \<open>m\<close> is rounded to the nearest multiple of the spacing, a tie going to the even
  multiple. \<open>mk\<close> builds the result of an operation from the sign and the exact magnitude:
  a rounded magnitude that reaches \<open>2\<^sup>1\<^sup>0\<^sup>2\<^sup>4\<close> overflows to infinity.
\<close>

definition binade :: "real \<Rightarrow> int" where
  "binade m = max \<lfloor>log 2 m\<rfloor> (- 1022)"

definition ulp :: "real \<Rightarrow> real" where
  "ulp m = 2 powi (binade m - 52)"

definition round_even :: "real \<Rightarrow> int" where
  "round_even q =
     (let f = \<lfloor>q\<rfloor>
      in if q - of_int f < 1 / 2 then f
         else if 1 / 2 < q - of_int f then f + 1
         else if even f then f else f + 1)"

definition round64 :: "real \<Rightarrow> real" where
  "round64 m = (if m = 0 then 0 else of_int (round_even (m / ulp m)) * ulp m)"

definition mk :: "bool \<Rightarrow> real \<Rightarrow> double" where
  "mk s m = (if 2 ^ 1024 \<le> round64 m then Infinity s else Finite s (round64 m))"

text \<open>\<open>lit x\<close> is the value a numeric literal \<open>x\<close> of the source denotes, \<open>rv\<close> the real
  number a sign and a magnitude stand for, \<open>dval\<close> the real value of a finite double, and
  \<open>sround\<close> rounding extended to negative numbers.\<close>

definition lit :: "real \<Rightarrow> double" where
  "lit x = mk (x < 0) \<bar>x\<bar>"

definition rv :: "bool \<Rightarrow> real \<Rightarrow> real" where
  "rv s m = (if s then - m else m)"

definition dval :: "double \<Rightarrow> real" where
  "dval x = (case x of Finite s m \<Rightarrow> rv s m | _ \<Rightarrow> 0)"

definition is_finite :: "double \<Rightarrow> bool" where
  "is_finite x = (case x of Finite s m \<Rightarrow> 0 \<le> m | _ \<Rightarrow> False)"

definition sround :: "real \<Rightarrow> real" where
  "sround v = (if v < 0 then - round64 (- v) else round64 v)"

definition d0 :: double where "d0 = Finite False 0"
definition d1 :: double where "d1 = Finite False 1"

text \<open>An array index or a small loop counter as a double: exact below \<open>2\<^sup>5\<^sup>3\<close>.\<close>

definition dnat :: "nat \<Rightarrow> double" where
  "dnat k = Finite False (real k)"

subsection \<open>Arithmetic and comparisons\<close>

text \<open>
  The operators \<^verbatim>\<open>+ - * /\<close>, unary minus, \<^verbatim>\<open>Math.abs\<close>, \<^verbatim>\<open><\<close> and \<^verbatim>\<open>===\<close> of the source,
  as IEEE 754 defines them: the exact result rounded once; \<^verbatim>\<open>NaN\<close> from \<open>\<infinity> - \<infinity>\<close>,
  \<open>0 \<cdot> \<infinity>\<close>, \<open>0 / 0\<close> and \<open>\<infinity> / \<infinity>\<close>; a signed infinity from a division of a non-zero
  value by a zero; an exact zero sum is negative only when both summands are negative
  zeros; every comparison with \<^verbatim>\<open>NaN\<close> is false, and the two zeros are equal.
\<close>

fun dneg :: "double \<Rightarrow> double" where
  "dneg NaN = NaN"
| "dneg (Infinity s) = Infinity (\<not> s)"
| "dneg (Finite s m) = Finite (\<not> s) m"

fun dabs :: "double \<Rightarrow> double" where
  "dabs NaN = NaN"
| "dabs (Infinity s) = Infinity False"
| "dabs (Finite s m) = Finite False m"

fun dadd :: "double \<Rightarrow> double \<Rightarrow> double" where
  "dadd NaN y = NaN"
| "dadd x NaN = NaN"
| "dadd (Infinity s) (Infinity s') = (if s = s' then Infinity s else NaN)"
| "dadd (Infinity s) (Finite s' m) = Infinity s"
| "dadd (Finite s m) (Infinity s') = Infinity s'"
| "dadd (Finite s m) (Finite s' m') =
     (let v = rv s m + rv s' m'
      in if v = 0 then Finite (s \<and> s') 0 else mk (v < 0) \<bar>v\<bar>)"

definition dsub :: "double \<Rightarrow> double \<Rightarrow> double" where
  "dsub x y = dadd x (dneg y)"

fun dmul :: "double \<Rightarrow> double \<Rightarrow> double" where
  "dmul NaN y = NaN"
| "dmul x NaN = NaN"
| "dmul (Infinity s) (Infinity s') = Infinity (s \<noteq> s')"
| "dmul (Infinity s) (Finite s' m) = (if m = 0 then NaN else Infinity (s \<noteq> s'))"
| "dmul (Finite s m) (Infinity s') = (if m = 0 then NaN else Infinity (s \<noteq> s'))"
| "dmul (Finite s m) (Finite s' m') = mk (s \<noteq> s') (m * m')"

fun ddiv :: "double \<Rightarrow> double \<Rightarrow> double" where
  "ddiv NaN y = NaN"
| "ddiv x NaN = NaN"
| "ddiv (Infinity s) (Infinity s') = NaN"
| "ddiv (Infinity s) (Finite s' m) = Infinity (s \<noteq> s')"
| "ddiv (Finite s m) (Infinity s') = Finite (s \<noteq> s') 0"
| "ddiv (Finite s m) (Finite s' m') =
     (if m' = 0 then (if m = 0 then NaN else Infinity (s \<noteq> s'))
      else mk (s \<noteq> s') (m / m'))"

fun dless :: "double \<Rightarrow> double \<Rightarrow> bool" where
  "dless NaN y = False"
| "dless x NaN = False"
| "dless (Infinity s) (Infinity s') = (s \<and> \<not> s')"
| "dless (Infinity s) (Finite s' m) = s"
| "dless (Finite s m) (Infinity s') = (\<not> s')"
| "dless (Finite s m) (Finite s' m') = (rv s m < rv s' m')"

fun deq :: "double \<Rightarrow> double \<Rightarrow> bool" where
  "deq NaN y = False"
| "deq x NaN = False"
| "deq (Infinity s) (Infinity s') = (s = s')"
| "deq (Infinity s) (Finite s' m) = False"
| "deq (Finite s m) (Infinity s') = False"
| "deq (Finite s m) (Finite s' m') = (rv s m = rv s' m')"

definition dle :: "double \<Rightarrow> double \<Rightarrow> bool" where
  "dle x y = (dless x y \<or> deq x y)"

subsection \<open>\<^verbatim>\<open>Math.pow\<close>\<close>




subsection \<open>The functions in double precision\<close>









text \<open>
  \<^verbatim>\<open>bisectionMethod\<close>. The counter \<^verbatim>\<open>i\<close> is a double incremented by \<^verbatim>\<open>i++\<close>; beyond
  \<open>2\<^sup>5\<^sup>3\<close> the increment rounds back to the same value, so with a larger budget the loop
  may never stop. The loop is therefore a partial function: \<^term>\<open>None\<close> stands for a run
  that does not return, \<open>Some c\<close> for the number returned. In the result of
  \<open>bisectionMethod_d\<close> the inner option is the \<^verbatim>\<open>number | null\<close> of the source.
\<close>

partial_function (option) bisection_loop_d ::
  "(double \<Rightarrow> double) \<Rightarrow> double \<Rightarrow> double \<Rightarrow> double \<Rightarrow> double \<Rightarrow> double \<Rightarrow> double \<Rightarrow> double
     \<Rightarrow> double option" where
  "bisection_loop_d func tolerance maxIterations i a b fa fb =
     (if dless i maxIterations
      then (let c = ddiv (dadd a b) (Finite False 2); fc = func c
            in if dless (dabs fc) tolerance \<or> dless (dabs (dsub b a)) tolerance then Some c
               else if dless (dmul fa fc) d0
                    then bisection_loop_d func tolerance maxIterations (dadd i d1) a c fa fc
                    else bisection_loop_d func tolerance maxIterations (dadd i d1) c b fc fb)
      else Some (ddiv (dadd a b) (Finite False 2)))"

definition bisectionMethod_d ::
  "(double \<Rightarrow> double) \<Rightarrow> double \<Rightarrow> double \<Rightarrow> double \<Rightarrow> double \<Rightarrow> double option option" where
  "bisectionMethod_d func a b tolerance maxIterations =
     (let fa = func a; fb = func b
      in if dless d0 (dmul fa fb) then Some None
         else map_option Some (bisection_loop_d func tolerance maxIterations d0 a b fa fb))"

section \<open>Results\<close>

subsection \<open>Helper facts\<close>

text \<open>For a whole number of periods the balloon loop is a map over the period numbers.\<close>

lemma balloon_loop_nat:
  "balloon_loop P r (real n) t k = map (balloon_row P r (real n) t) [k..<Suc n]"
proof (induction "Suc n - k" arbitrary: k)
  case 0
  then have "\<not> real k \<le> real n" by simp
  then show ?case using 0 by (subst balloon_loop.simps) simp
next
  case (Suc d)
  then have le: "k \<le> n" and d: "d = Suc n - Suc k" by simp_all
  have "[k..<Suc n] = k # [Suc k..<Suc n]" using le by (simp add: upt_conv_Cons)
  then show ?case using Suc.hyps(1)[OF d] le by (subst balloon_loop.simps) simp
qed

lemma generateBalloonSchedule_nat:
  "generateBalloonSchedule P rate (real n) t =
     map (balloon_row P (rate / 100) (real n) t) [1..<Suc n]"
  by (simp add: generateBalloonSchedule_def balloon_loop_nat)

lemma Math_pow_examples:
  "Math_pow (11 / 10) (- 2) = 100 / 121"
  "Math_pow (11 / 10) (- 1) = 10 / 11"
  "Math_pow (21 / 20) 2 = 441 / 400"
  "Math_pow (21 / 20) (- 2) = 400 / 441"
  by code_simp+





text \<open>Every bracket the bisection loop visits lies inside the one it started from, and
  so does the value it returns.\<close>

lemma bisection_loop_in_bracket:
  "a \<le> b \<Longrightarrow>
     a \<le> bisection_loop func tolerance maxIterations i a b fa fb \<and>
     bisection_loop func tolerance maxIterations i a b fa fb \<le> b"
proof (induction func tolerance maxIterations i a b fa fb rule: bisection_loop.induct)
  case (1 func tolerance maxIterations i a b fa fb)
  define c where "c = (a + b) / 2"
  define fc where "fc = func c"
  have c: "a \<le> c" "c \<le> b" using "1.prems" by (simp_all add: c_def)
  show ?case
  proof (cases "real i < maxIterations")
    case False
    then show ?thesis using c by (subst (1 2) bisection_loop.simps) (simp add: c_def)
  next
    case budget: True
    show ?thesis
    proof (cases "\<bar>fc\<bar> < tolerance \<or> \<bar>b - a\<bar> < tolerance")
      case True
      then show ?thesis using c budget
        by (subst (1 2) bisection_loop.simps) (auto simp: c_def fc_def Let_def)
    next
      case notconv: False
      show ?thesis
      proof (cases "fa * fc < 0")
        case True
        from "1.IH"(1) [OF budget c_def fc_def notconv True c(1)] c
        have "a \<le> bisection_loop func tolerance maxIterations (Suc i) a c fa fc \<and>
              bisection_loop func tolerance maxIterations (Suc i) a c fa fc \<le> b"
          by simp
        then show ?thesis using budget notconv True
          by (subst (1 2) bisection_loop.simps) (simp add: c_def fc_def Let_def)
      next
        case False
        from "1.IH"(2) [OF budget c_def fc_def notconv False c(2)] c
        have "a \<le> bisection_loop func tolerance maxIterations (Suc i) c b fc fb \<and>
              bisection_loop func tolerance maxIterations (Suc i) c b fc fb \<le> b"
          by simp
        then show ?thesis using budget notconv False
          by (subst (1 2) bisection_loop.simps) (simp add: c_def fc_def Let_def)
      qed
    qed
  qed
qed

subsection \<open>Schedules over a whole number of periods\<close>

lemma shpitzer_step_simps:
  "period (fst (shpitzer_step c r t p bal)) = p"
  "principalPayment (fst (shpitzer_step c r t p bal)) = min c bal"
  "totalPayment (fst (shpitzer_step c r t p bal)) =
     principalPayment (fst (shpitzer_step c r t p bal))
       + interestPayment (fst (shpitzer_step c r t p bal))"
  "remainingBalance (fst (shpitzer_step c r t p bal)) = max 0 (bal - min c bal)"
  "snd (shpitzer_step c r t p bal) = bal - min c bal"
  by (simp_all add: shpitzer_step_def Let_def)

lemma regular_step_simps:
  "period (fst (regular_step pmt r t p bal)) = p"
  "principalPayment (fst (regular_step pmt r t p bal)) =
     (if t = Begin then min (pmt / (1 + r)) bal else min (pmt - bal * r) bal)"
  "totalPayment (fst (regular_step pmt r t p bal)) =
     principalPayment (fst (regular_step pmt r t p bal))
       + interestPayment (fst (regular_step pmt r t p bal))"
  "remainingBalance (fst (regular_step pmt r t p bal)) =
     max 0 (bal - principalPayment (fst (regular_step pmt r t p bal)))"
  "snd (regular_step pmt r t p bal) = bal - principalPayment (fst (regular_step pmt r t p bal))"
  by (simp_all add: regular_step_def Let_def)

lemma shpitzer_loop_Nil: "n < k \<Longrightarrow> shpitzer_loop c r (real n) t k bal = []"
  by (subst shpitzer_loop.simps) simp

lemma shpitzer_loop_Cons:
  "k \<le> n \<Longrightarrow> shpitzer_loop c r (real n) t k bal =
     fst (shpitzer_step c r t k bal)
       # shpitzer_loop c r (real n) t (Suc k) (snd (shpitzer_step c r t k bal))"
  by (subst shpitzer_loop.simps) simp

lemma regular_loop_Nil: "n < k \<Longrightarrow> regular_loop pmt r (real n) t k bal = []"
  by (subst regular_loop.simps) simp

lemma regular_loop_Cons:
  "k \<le> n \<Longrightarrow> regular_loop pmt r (real n) t k bal =
     fst (regular_step pmt r t k bal)
       # regular_loop pmt r (real n) t (Suc k) (snd (regular_step pmt r t k bal))"
  by (subst regular_loop.simps) simp

lemma shpitzer_loop_structure:
  "map period (shpitzer_loop c r (real n) t k bal) = [k..<Suc n] \<and>
   (\<forall>row \<in> set (shpitzer_loop c r (real n) t k bal).
      totalPayment row = principalPayment row + interestPayment row)"
proof (induction "Suc n - k" arbitrary: k bal)
  case 0
  then show ?case by (simp add: shpitzer_loop_Nil)
next
  case (Suc d)
  then have le: "k \<le> n" and d: "d = Suc n - Suc k" by simp_all
  have "[k..<Suc n] = k # [Suc k..<Suc n]" using le by (simp add: upt_conv_Cons)
  then show ?case using Suc.hyps(1) [OF d] le
    by (simp add: shpitzer_loop_Cons shpitzer_step_simps)
qed

lemma regular_loop_structure:
  "map period (regular_loop pmt r (real n) t k bal) = [k..<Suc n] \<and>
   (\<forall>row \<in> set (regular_loop pmt r (real n) t k bal).
      totalPayment row = principalPayment row + interestPayment row)"
proof (induction "Suc n - k" arbitrary: k bal)
  case 0
  then show ?case by (simp add: regular_loop_Nil)
next
  case (Suc d)
  then have le: "k \<le> n" and d: "d = Suc n - Suc k" by simp_all
  have "[k..<Suc n] = k # [Suc k..<Suc n]" using le by (simp add: upt_conv_Cons)
  then show ?case using Suc.hyps(1) [OF d] le
    by (simp add: regular_loop_Cons regular_step_simps(1,3))
qed

lemma grace_loop_nat:
  "grace_loop P r (real n) k = map (grace_row P r (real n)) [k..<Suc n]"
proof (induction "Suc n - k" arbitrary: k)
  case 0
  then have "\<not> real k \<le> real n" by simp
  then show ?case using 0 by (subst grace_loop.simps) simp
next
  case (Suc d)
  then have le: "k \<le> n" and d: "d = Suc n - Suc k" by simp_all
  have "[k..<Suc n] = k # [Suc k..<Suc n]" using le by (simp add: upt_conv_Cons)
  then show ?case using Suc.hyps(1)[OF d] le by (subst grace_loop.simps) simp
qed

lemma generateGraceSchedule_nat:
  "generateGraceSchedule P rate (real n) g t = map (grace_row P (rate / 100) (real n)) [1..<Suc n]"
  by (simp add: generateGraceSchedule_def grace_loop_nat)

lemma generateRegularSchedule_loop:
  "generateRegularSchedule P rate periods t =
     regular_loop (regular_pmt P (rate / 100) periods t) (rate / 100) periods t 1 P"
  by (simp add: generateRegularSchedule_def Let_def)

lemma shpitzer_loop_principal_sum:
  "0 \<le> c \<Longrightarrow> k \<le> Suc n \<Longrightarrow> bal = real (Suc n - k) * c \<Longrightarrow>
     sum_list (map principalPayment (shpitzer_loop c r (real n) t k bal)) = bal"
proof (induction "Suc n - k" arbitrary: k bal)
  case 0
  then show ?case by (simp add: shpitzer_loop_Nil)
next
  case (Suc d)
  then have le: "k \<le> n" and d: "d = Suc n - Suc k" by simp_all
  have bal: "bal = real (Suc d) * c" using Suc.prems(3) Suc.hyps(2) by simp
  have "c \<le> bal" using bal \<open>0 \<le> c\<close> by (simp add: algebra_simps)
  then have m: "min c bal = c" by simp
  have new: "bal - c = real (Suc n - Suc k) * c" using bal d by (simp add: algebra_simps)
  have "sum_list (map principalPayment
          (shpitzer_loop c r (real n) t (Suc k) (bal - c))) = bal - c"
    using Suc.hyps(1) [OF d \<open>0 \<le> c\<close> _ new] le by simp
  then show ?case using le m by (simp add: shpitzer_loop_Cons shpitzer_step_simps)
qed

lemma shpitzer_loop_balance:
  "0 \<le> c \<Longrightarrow> 0 \<le> bal \<Longrightarrow>
     sorted_wrt (\<ge>) (map remainingBalance (shpitzer_loop c r (real n) t k bal)) \<and>
     (\<forall>row \<in> set (shpitzer_loop c r (real n) t k bal). remainingBalance row \<le> bal)"
proof (induction "Suc n - k" arbitrary: k bal)
  case 0
  then show ?case by (simp add: shpitzer_loop_Nil)
next
  case (Suc d)
  then have le: "k \<le> n" and d: "d = Suc n - Suc k" by simp_all
  define new where "new = bal - min c bal"
  have new: "0 \<le> new" "new \<le> bal" using Suc.prems by (simp_all add: new_def)
  from Suc.hyps(1) [OF d \<open>0 \<le> c\<close> new(1)]
  have ih: "sorted_wrt (\<ge>) (map remainingBalance (shpitzer_loop c r (real n) t (Suc k) new))"
    "\<forall>row \<in> set (shpitzer_loop c r (real n) t (Suc k) new). remainingBalance row \<le> new"
    by simp_all
  have mx: "max 0 new = new" using new(1) by simp
  show ?case using le ih new mx
    by (auto simp: shpitzer_loop_Cons shpitzer_step_simps new_def [symmetric])
qed

lemma Math_pow_neg_nat: "Math_pow x (- real n) = inverse x ^ n"
proof -
  have "- real n = of_int (- int n)" by simp
  then have fl: "\<lfloor>- real n\<rfloor> = - int n" by (metis floor_of_int)
  have "x powi (- int n) = inverse x ^ n"
    by (simp add: power_int_minus power_inverse)
  then show ?thesis using fl by (simp add: Math_pow_def)
qed

lemma regular_loop_balance:
  "0 \<le> r \<Longrightarrow> 0 \<le> pmt \<Longrightarrow> (t = End \<longrightarrow> P * r \<le> pmt) \<Longrightarrow> 0 \<le> bal \<Longrightarrow> bal \<le> P \<Longrightarrow>
     sorted_wrt (\<ge>) (map remainingBalance (regular_loop pmt r (real n) t k bal)) \<and>
     (\<forall>row \<in> set (regular_loop pmt r (real n) t k bal). remainingBalance row \<le> bal)"
proof (induction "Suc n - k" arbitrary: k bal)
  case 0
  then show ?case by (simp add: regular_loop_Nil)
next
  case (Suc d)
  then have le: "k \<le> n" and d: "d = Suc n - Suc k" by simp_all
  define pp where "pp = principalPayment (fst (regular_step pmt r t k bal))"
  define new where "new = bal - pp"
  have "bal * r \<le> P * r" using \<open>bal \<le> P\<close> \<open>0 \<le> r\<close> by (simp add: mult_right_mono)
  then have e: "t = End \<Longrightarrow> 0 \<le> pmt - bal * r" using Suc.prems(3) by simp
  have b: "0 \<le> pmt / (1 + r)" using \<open>0 \<le> r\<close> \<open>0 \<le> pmt\<close> by simp
  have pp: "0 \<le> pp" "pp \<le> bal"
    using e b \<open>0 \<le> bal\<close> by (cases t; simp add: pp_def regular_step_simps)+
  have new: "0 \<le> new" "new \<le> bal" "new \<le> P" using pp \<open>bal \<le> P\<close> by (simp_all add: new_def)
  from Suc.hyps(1) [OF d Suc.prems(1,2,3) new(1,3)]
  have ih: "sorted_wrt (\<ge>) (map remainingBalance (regular_loop pmt r (real n) t (Suc k) new))"
    "\<forall>row \<in> set (regular_loop pmt r (real n) t (Suc k) new). remainingBalance row \<le> new"
    by simp_all
  have mx: "max 0 new = new" using new(1) by simp
  have hd: "remainingBalance (fst (regular_step pmt r t k bal)) = new"
    "snd (regular_step pmt r t k bal) = new"
    using mx by (simp_all add: regular_step_simps(4,5) pp_def new_def)
  show ?case using le ih new hd by (auto simp: regular_loop_Cons)
qed

lemma regular_loop_zero_rate:
  "0 \<le> pmt \<Longrightarrow> k \<le> Suc n \<Longrightarrow> bal = real (Suc n - k) * pmt \<Longrightarrow>
     sum_list (map principalPayment (regular_loop pmt 0 (real n) t k bal)) = bal \<and>
     (\<forall>row \<in> set (regular_loop pmt 0 (real n) t k bal). totalPayment row = pmt)"
proof (induction "Suc n - k" arbitrary: k bal)
  case 0
  then show ?case by (simp add: regular_loop_Nil)
next
  case (Suc d)
  then have le: "k \<le> n" and d: "d = Suc n - Suc k" by simp_all
  have bal: "bal = real (Suc d) * pmt" using Suc.prems(3) Suc.hyps(2) by simp
  have "pmt \<le> bal" using bal \<open>0 \<le> pmt\<close> by (simp add: algebra_simps)
  then have m: "min pmt bal = pmt" by simp
  have step: "principalPayment (fst (regular_step pmt 0 t k bal)) = pmt"
    "totalPayment (fst (regular_step pmt 0 t k bal)) = pmt"
    "snd (regular_step pmt 0 t k bal) = bal - pmt"
    using m by (simp_all add: regular_step_def Let_def)
  have new: "bal - pmt = real (Suc n - Suc k) * pmt" using bal d by (simp add: algebra_simps)
  from Suc.hyps(1) [OF d \<open>0 \<le> pmt\<close> _ new] le
  have ih: "sum_list (map principalPayment
          (regular_loop pmt 0 (real n) t (Suc k) (bal - pmt))) = bal - pmt"
    "\<forall>row \<in> set (regular_loop pmt 0 (real n) t (Suc k) (bal - pmt)). totalPayment row = pmt"
    by simp_all
  show ?case using le ih step by (simp add: regular_loop_Cons)
qed

lemma regular_loop_end_closed:
  "0 < r \<Longrightarrow> 0 \<le> pmt \<Longrightarrow> k \<le> Suc n \<Longrightarrow>
   bal * r = pmt * (1 - inverse (1 + r) ^ (Suc n - k)) \<Longrightarrow>
     sum_list (map principalPayment (regular_loop pmt r (real n) End k bal)) = bal \<and>
     (\<forall>row \<in> set (regular_loop pmt r (real n) End k bal). totalPayment row = pmt)"
proof (induction "Suc n - k" arbitrary: k bal)
  case 0
  then have "bal * r = 0" by simp
  then have "bal = 0" using \<open>0 < r\<close> by simp
  then show ?case using 0 by (simp add: regular_loop_Nil)
next
  case (Suc d)
  then have le: "k \<le> n" and d: "d = Suc n - Suc k" by simp_all
  define q where "q = inverse (1 + r)"
  have q: "0 < q" "q \<le> 1" "q * (1 + r) = 1" using \<open>0 < r\<close> by (simp_all add: q_def field_simps)
  have balr: "bal * r = pmt * (1 - q ^ Suc d)" using Suc.prems(4) Suc.hyps(2) by (simp add: q_def)
  have qd: "q ^ d \<le> 1" using q by (simp add: power_le_one)
  have qs: "q ^ Suc d * (1 + r) = q ^ d" using q(3) by (simp add: mult.assoc mult.commute)
  have gap: "pmt - bal * r = pmt * q ^ Suc d" using balr by (simp add: algebra_simps)
  have "(pmt * q ^ Suc d) * r \<le> bal * r"
  proof -
    have "(pmt * q ^ Suc d) * r = pmt * (q ^ Suc d * (1 + r)) - pmt * q ^ Suc d"
      by (simp add: algebra_simps)
    also have "\<dots> = pmt * q ^ d - pmt * q ^ Suc d" by (simp only: qs)
    also have "\<dots> \<le> pmt - pmt * q ^ Suc d"
      using \<open>0 \<le> pmt\<close> qd by (simp add: mult_left_le)
    also have "\<dots> = bal * r" using balr by (simp add: algebra_simps)
    finally show ?thesis .
  qed
  then have "pmt * q ^ Suc d \<le> bal" using \<open>0 < r\<close> by simp
  then have m: "min (pmt - bal * r) bal = pmt - bal * r" using gap by simp
  have step: "principalPayment (fst (regular_step pmt r End k bal)) = pmt - bal * r"
    "totalPayment (fst (regular_step pmt r End k bal)) = pmt"
    "snd (regular_step pmt r End k bal) = bal - (pmt - bal * r)"
    using m by (simp_all add: regular_step_def Let_def)
  have new: "(bal - (pmt - bal * r)) * r = pmt * (1 - inverse (1 + r) ^ (Suc n - Suc k))"
  proof -
    have "(bal - (pmt - bal * r)) * r = (bal * r) * (1 + r) - pmt * r"
      by (simp add: algebra_simps)
    also have "\<dots> = pmt * (1 + r) - pmt * (q ^ Suc d * (1 + r)) - pmt * r"
      by (simp only: balr) (simp add: algebra_simps)
    also have "\<dots> = pmt * (1 - q ^ d)" by (simp only: qs) (simp add: algebra_simps)
    finally show ?thesis using d by (simp add: q_def)
  qed
  from Suc.hyps(1) [OF d \<open>0 < r\<close> \<open>0 \<le> pmt\<close> _ new] le
  have ih: "sum_list (map principalPayment
          (regular_loop pmt r (real n) End (Suc k) (bal - (pmt - bal * r)))) = bal - (pmt - bal * r)"
    "\<forall>row \<in> set (regular_loop pmt r (real n) End (Suc k) (bal - (pmt - bal * r))).
       totalPayment row = pmt"
    by simp_all
  show ?case using le ih step by (simp add: regular_loop_Cons)
qed

lemma discount_power_bounds:
  assumes "0 < (r::real)" and "1 \<le> n"
  shows "0 < inverse (1 + r) ^ n" and "inverse (1 + r) ^ n < 1"
proof -
  have "1 < 1 + r" using assms(1) by simp
  then have q: "0 < inverse (1 + r)" "inverse (1 + r) < 1"
    by (simp_all add: inverse_less_1_iff)
  show "0 < inverse (1 + r) ^ n" using q(1) by simp
  have "inverse (1 + r) ^ n \<le> inverse (1 + r) ^ 1"
    using q assms(2) by (intro power_decreasing) simp_all
  then show "inverse (1 + r) ^ n < 1" using q(2) by simp
qed

lemma regular_pmt_end:
  assumes "0 \<le> P" and "0 < r" and "1 \<le> n"
  shows "0 \<le> regular_pmt P r (real n) End"
    and "P * r \<le> regular_pmt P r (real n) End"
    and "P * r = regular_pmt P r (real n) End * (1 - inverse (1 + r) ^ n)"
proof -
  define D where "D = 1 - inverse (1 + r) ^ n"
  have D: "0 < D" "D \<le> 1" using discount_power_bounds [OF assms(2,3)] by (simp_all add: D_def)
  have pmt: "regular_pmt P r (real n) End = (P * r) / D"
    using assms(2) by (simp add: regular_pmt_def Math_pow_neg_nat D_def)
  have Pr: "0 \<le> P * r" using assms(1,2) by simp
  show "0 \<le> regular_pmt P r (real n) End" using Pr D(1) by (simp add: pmt)
  show "P * r \<le> regular_pmt P r (real n) End"
    using Pr D by (simp add: pmt pos_le_divide_eq mult_left_le)
  show "P * r = regular_pmt P r (real n) End * (1 - inverse (1 + r) ^ n)"
    using D(1) by (simp add: pmt D_def [symmetric])
qed

lemma regular_pmt_begin_nonneg:
  assumes "0 \<le> P" and "0 < r" and "1 \<le> n"
  shows "0 \<le> regular_pmt P r (real n) Begin"
proof -
  have "0 < 1 - inverse (1 + r) ^ n" using discount_power_bounds [OF assms(2,3)] by simp
  then have "0 < (1 - inverse (1 + r) ^ n) * (1 + r)" using assms(2) by simp
  moreover have "0 \<le> P * r" using assms(1,2) by simp
  ultimately show ?thesis using assms(2)
    by (simp add: regular_pmt_def Math_pow_neg_nat del: mult_pos_pos)
qed

lemma regular_pmt_zero_rate:
  "regular_pmt P 0 (real n) t = P / real n"
  by (simp add: regular_pmt_def)

lemma balloon_row_simps:
  "principalPayment (balloon_row P r (real n) t k) = (if k < n then 0 else P)"
  "remainingBalance (balloon_row P r (real n) t k) = (if k < n then P else 0)"
  by (simp_all add: balloon_row_def)

lemma grace_row_simps:
  "principalPayment (grace_row P r (real n) k) = (if k < n then 0 else P)"
  "remainingBalance (grace_row P r (real n) k) = (if k < n then P else 0)"
  by (simp_all add: grace_row_def)

lemma final_only_sum:
  assumes "1 \<le> n"
  shows "sum_list (map (\<lambda>k. if k < n then 0 else P) [1..<Suc n]) = (P::real)"
proof -
  have "sum_list (map (\<lambda>k. if k < n then 0 else P) [1..<n]) = sum_list (map (\<lambda>k. 0) [1..<n])"
    by (rule arg_cong [where f = sum_list], rule map_cong) simp_all
  then have "sum_list (map (\<lambda>k. if k < n then 0 else P) [1..<n]) = 0" by simp
  moreover have "[1..<Suc n] = [1..<n] @ [n]" using assms by simp
  ultimately show ?thesis by simp
qed

lemma final_only_sorted:
  assumes "0 \<le> (P::real)"
  shows "sorted_wrt (\<ge>) (map (\<lambda>k. if k < n then P else 0) [1..<Suc n])"
proof -
  have "sorted_wrt (\<lambda>i j. (if i < n then P else 0) \<ge> (if j < n then P else 0)) [1..<Suc n]"
    by (rule sorted_wrt_mono_rel [OF _ sorted_wrt_upt]) (use assms in auto)
  then show ?thesis by (simp add: sorted_wrt_map)
qed

subsection \<open>Exact arithmetic: round trip, rate of return, bracket\<close>




lemma bisectionMethod_in_bracket_exact:
  assumes "a \<le> b" and "bisectionMethod func a b tolerance maxIterations = Some c"
  shows "a \<le> c \<and> c \<le> b"
proof -
  from assms(2) have "c = bisection_loop func tolerance maxIterations 0 a b (func a) (func b)"
    by (simp add: bisectionMethod_def Let_def split: if_splits)
  then show ?thesis using bisection_loop_in_bracket [OF assms(1)] by simp
qed

subsection \<open>Rounding\<close>

lemma binade_eq:
  assumes "2 powi e \<le> m" and "m < 2 powi (e + 1)" and "- 1022 \<le> e"
  shows "binade m = e"
proof -
  have "(0::real) < 2 powi e" by simp
  then have m: "0 < m" using assms(1) by linarith
  have p: "(2::real) powr (of_int k) = 2 powi k" for k
    by (simp add: powr_real_of_int')
  have "(2::real) powr (of_int e) \<le> m \<and> m < 2 powr (of_int (e + 1))"
    using assms(1,2) by (simp only: p)
  then have "\<lfloor>log 2 m\<rfloor> = e"
    using floor_log_eq_powr_iff [of m 2 e] m by simp
  then show ?thesis using assms(3) by (simp add: binade_def)
qed

lemma round64_eval:
  assumes "2 powi e \<le> m" and "m < 2 powi (e + 1)" and "- 1022 \<le> e"
  shows "round64 m = of_int (round_even (m / 2 powi (e - 52))) * 2 powi (e - 52)"
proof -
  have "(0::real) < 2 powi e" by simp
  then have m: "0 < m" using assms(1) by linarith
  then show ?thesis using binade_eq [OF assms] by (simp add: round64_def ulp_def)
qed

lemma round_even_near:
  "of_int n - 1 / 2 < q \<Longrightarrow> q < of_int n + 1 / 2 \<Longrightarrow> round_even q = n"
proof -
  assume lo: "of_int n - 1 / 2 < q" and hi: "q < of_int n + 1 / 2"
  show ?thesis
  proof (cases "of_int n \<le> q")
    case True
    then have "\<lfloor>q\<rfloor> = n" using hi by (simp add: floor_eq_iff)
    then show ?thesis using hi by (simp add: round_even_def)
  next
    case False
    then have "\<lfloor>q\<rfloor> = n - 1" using lo by (simp add: floor_eq_iff)
    then show ?thesis using lo by (simp add: round_even_def)
  qed
qed

lemma mk_FiniteI:
  assumes "- 1022 \<le> e" and "2 powi e \<le> m" and "m < 2 powi (e + 1)"
    and "of_int n - 1 / 2 < m * 2 powi (52 - e)" and "m * 2 powi (52 - e) < of_int n + 1 / 2"
    and "r = of_int n * 2 powi (e - 52)" and "r < 2 ^ 1024"
  shows "mk s m = Finite s r"
proof -
  have "m / 2 powi (e - 52) = m * 2 powi (52 - e)"
    by (simp add: power_int_diff field_simps)
  then have "round_even (m / 2 powi (e - 52)) = n"
    using round_even_near [OF assms(4,5)] by simp
  then have "round64 m = r" using round64_eval [OF assms(2,3,1)] assms(6) by simp
  then show ?thesis using assms(7) by (simp add: mk_def)
qed

lemma mk_zero [simp]: "mk s 0 = Finite s 0"
  by (simp add: mk_def round64_def)

lemma round_even_of_int [simp]: "round_even (of_int n) = n"
  by (simp add: round_even_def)

lemma binade_bounds:
  assumes "0 < m"
  shows "- 1022 \<le> binade m" and "m < 2 powi (binade m + 1)"
    and "- 1022 < binade m \<Longrightarrow> 2 powi (binade m) \<le> m"
proof -
  define L where "L = \<lfloor>log 2 m\<rfloor>"
  have p: "(2::real) powr (of_int k) = 2 powi k" for k
    by (simp add: powr_real_of_int')
  have "(2::real) powr (of_int L) \<le> m \<and> m < 2 powr (of_int (L + 1))"
    using floor_log_eq_powr_iff [of m 2 L] assms by (simp add: L_def)
  then have L: "2 powi L \<le> m" "m < 2 powi (L + 1)" by (simp_all only: p)
  show "- 1022 \<le> binade m" by (simp add: binade_def)
  have "(2::real) powi (L + 1) \<le> 2 powi (binade m + 1)"
    by (rule power_int_increasing) (simp_all add: binade_def L_def)
  then show "m < 2 powi (binade m + 1)" using L(2) by linarith
  show "2 powi (binade m) \<le> m" if "- 1022 < binade m"
  proof -
    from that have "binade m = L" by (simp add: binade_def L_def max_def split: if_splits)
    then show ?thesis using L(1) by simp
  qed
qed

lemma round64_representable:
  assumes "representable m"
  shows "round64 m = m"
proof (cases "m = 0")
  case True
  then show ?thesis by (simp add: round64_def)
next
  case False
  from assms obtain n k where m: "m = of_int n * 2 powi k"
    and n: "0 \<le> n" "n < 2 ^ 53" and k: "- 1074 \<le> k"
    by (auto simp: representable_def)
  have npos: "0 < n" using False m n(1) by (cases "n = 0") simp_all
  then have mpos: "0 < m" by (simp add: m)
  define e where "e = binade m"
  have ke: "e - 52 \<le> k"
  proof (cases "- 1022 < e")
    case False
    then have "e = - 1022" using binade_bounds(1) [OF mpos] by (simp add: e_def)
    then show ?thesis using k by simp
  next
    case True
    then have "(2::real) powi e \<le> of_int n * 2 powi k"
      using binade_bounds(3) [OF mpos] by (simp add: e_def m)
    also have "\<dots> < 2 ^ 53 * (2::real) powi k"
    proof -
      have "(of_int n :: real) < 2 ^ 53" using n(2) by (metis of_int_less_numeral_power_cancel_iff)
      then show ?thesis by (simp add: mult_strict_right_mono)
    qed
    also have "\<dots> = 2 powi (53 + k)" by (simp add: power_int_add)
    finally have lt: "(2::real) powi e < 2 powi (53 + k)" .
    have "e < 53 + k"
    proof (rule ccontr)
      assume "\<not> e < 53 + k"
      then have "(2::real) powi (53 + k) \<le> 2 powi e"
        by (intro power_int_increasing) simp_all
      then show False using lt by simp
    qed
    then show ?thesis by simp
  qed
  define j where "j = nat (k - (e - 52))"
  have kj: "k = (e - 52) + int j" using ke by (simp add: j_def)
  have q: "m / 2 powi (e - 52) = of_int (n * 2 ^ j)"
    by (simp add: m kj power_int_add)
  have "round_even (m / 2 powi (e - 52)) = n * 2 ^ j"
    unfolding q by (rule round_even_of_int)
  then have "round64 m = of_int (n * 2 ^ j) * 2 powi (e - 52)"
    using False by (simp add: round64_def ulp_def e_def)
  also have "\<dots> = m" by (simp add: m kj power_int_add)
  finally show ?thesis .
qed

lemma representable_nat:
  assumes "k < 2 ^ 53"
  shows "representable (real k)"
  unfolding representable_def
proof (intro exI conjI)
  show "real k = of_int (int k) * 2 powi 0" by simp
  show "0 \<le> int k" by simp
  show "int k < 2 ^ 53" using assms by (metis of_nat_less_numeral_power_cancel_iff)
  show "- 1074 \<le> (0::int)" by simp
qed

lemma mk_representable:
  "representable m \<Longrightarrow> m < 2 ^ 1024 \<Longrightarrow> mk s m = Finite s m"
  by (simp add: mk_def round64_representable)

lemma dnat_succ:
  assumes "k < 100"
  shows "dadd (dnat k) d1 = dnat (Suc k)"
proof -
  have "Suc k < 2 ^ 53" using assms by simp
  then have r: "representable (real (Suc k))" by (rule representable_nat)
  have "real (Suc k) < 2 ^ 1024" using assms by simp
  then have mk: "mk False (real (Suc k)) = Finite False (real (Suc k))"
    using r by (rule mk_representable [rotated])
  have eq: "real k + 1 = real (Suc k)" by simp
  have "dadd (dnat k) d1 = mk False (real k + 1)"
    by (simp add: dnat_def d1_def rv_def Let_def del: of_nat_Suc)
  then show ?thesis by (simp only: eq mk dnat_def)
qed

lemma round_even_floor_bounds:
  "\<lfloor>q\<rfloor> \<le> round_even q" "round_even q \<le> \<lfloor>q\<rfloor> + 1"
  by (simp_all add: round_even_def Let_def)

lemma round_even_mono:
  assumes "q1 \<le> q2"
  shows "round_even q1 \<le> round_even q2"
proof (cases "\<lfloor>q1\<rfloor> = \<lfloor>q2\<rfloor>")
  case True
  then show ?thesis using assms by (auto simp: round_even_def Let_def)
next
  case False
  then have "\<lfloor>q1\<rfloor> < \<lfloor>q2\<rfloor>" using floor_mono [OF assms] by simp
  then have "round_even q1 \<le> \<lfloor>q2\<rfloor>" using round_even_floor_bounds(2) [of q1] by simp
  then show ?thesis using round_even_floor_bounds(1) [of q2] by simp
qed

lemma round64_nonneg: "0 \<le> m \<Longrightarrow> 0 \<le> round64 m"
proof -
  assume "0 \<le> m"
  then have "0 \<le> m / ulp m" by (simp add: ulp_def)
  then have "0 \<le> round_even (m / ulp m)"
    using round_even_mono [of 0 "m / ulp m"] round_even_of_int [of 0] by simp
  then show ?thesis by (simp add: round64_def ulp_def)
qed

lemma round64_upper:
  assumes "0 < m"
  shows "round64 m \<le> 2 powi (binade m + 1)"
proof -
  define e where "e = binade m"
  have "m / 2 powi (e - 52) \<le> 2 powi (e + 1) / 2 powi (e - 52)"
    using binade_bounds(2) [OF assms] by (simp add: e_def divide_right_mono)
  also have "\<dots> = of_int (2 ^ 53)" by (simp add: power_int_diff [symmetric])
  finally have "round_even (m / 2 powi (e - 52)) \<le> 2 ^ 53"
    using round_even_mono round_even_of_int by metis
  then have "(of_int (round_even (m / 2 powi (e - 52))) :: real) \<le> 2 ^ 53"
    by (metis of_int_le_numeral_power_cancel_iff)
  then have "of_int (round_even (m / 2 powi (e - 52))) * 2 powi (e - 52)
      \<le> 2 ^ 53 * (2::real) powi (e - 52)"
    by (simp add: mult_right_mono)
  also have "\<dots> = 2 powi (e + 1)"
    by (simp add: power_int_add [symmetric] add.commute flip: power_int_numeral)
  finally have "of_int (round_even (m / 2 powi (e - 52))) * 2 powi (e - 52)
      \<le> (2::real) powi (e + 1)" .
  moreover have "round64 m = of_int (round_even (m / 2 powi (e - 52))) * 2 powi (e - 52)"
    using assms by (simp add: round64_def ulp_def e_def)
  ultimately show ?thesis by (simp only: e_def)
qed

lemma round64_lower:
  assumes "0 < m" and "- 1022 < binade m"
  shows "2 powi (binade m) \<le> round64 m"
proof -
  define e where "e = binade m"
  have "2 powi e / 2 powi (e - 52) \<le> m / 2 powi (e - 52)"
    using binade_bounds(3) [OF assms] by (simp add: e_def divide_right_mono)
  moreover have "2 powi e / 2 powi (e - 52) = (of_int (2 ^ 52) :: real)"
    by (simp add: power_int_diff [symmetric])
  ultimately have "2 ^ 52 \<le> round_even (m / 2 powi (e - 52))"
    using round_even_mono round_even_of_int by metis
  then have "(2 ^ 52 :: real) \<le> of_int (round_even (m / 2 powi (e - 52)))"
    by (metis numeral_power_le_of_int_cancel_iff)
  then have "2 ^ 52 * (2::real) powi (e - 52)
      \<le> of_int (round_even (m / 2 powi (e - 52))) * 2 powi (e - 52)"
    by (simp add: mult_right_mono)
  moreover have "2 ^ 52 * (2::real) powi (e - 52) = 2 powi e"
    by (simp add: power_int_add [symmetric] flip: power_int_numeral)
  moreover have "round64 m = of_int (round_even (m / 2 powi (e - 52))) * 2 powi (e - 52)"
    using assms(1) by (simp add: round64_def ulp_def e_def)
  ultimately show ?thesis by (simp only: e_def)
qed

lemma binade_mono:
  assumes "0 < m1" and "m1 \<le> m2"
  shows "binade m1 \<le> binade m2"
proof -
  have "log 2 m1 \<le> log 2 m2" using assms by simp
  then have "\<lfloor>log 2 m1\<rfloor> \<le> \<lfloor>log 2 m2\<rfloor>" by (rule floor_mono)
  then show ?thesis by (simp add: binade_def)
qed

lemma round64_mono:
  assumes "0 \<le> m1" and "m1 \<le> m2"
  shows "round64 m1 \<le> round64 m2"
proof (cases "m1 = 0")
  case True
  then show ?thesis using round64_nonneg [of m2] assms by (simp add: round64_def)
next
  case False
  then have p1: "0 < m1" and p2: "0 < m2" using assms by simp_all
  show ?thesis
  proof (cases "binade m1 = binade m2")
    case True
    have "m1 / ulp m2 \<le> m2 / ulp m2" using assms(2) by (simp add: ulp_def divide_right_mono)
    then have "round_even (m1 / ulp m2) \<le> round_even (m2 / ulp m2)" by (rule round_even_mono)
    then have "of_int (round_even (m1 / ulp m2)) * ulp m2
        \<le> of_int (round_even (m2 / ulp m2)) * ulp m2"
      by (simp add: ulp_def mult_right_mono)
    then show ?thesis using p1 p2 True by (simp add: round64_def ulp_def)
  next
    case False
    then have lt: "binade m1 < binade m2" using binade_mono [OF p1 assms(2)] by simp
    then have "- 1022 < binade m2" using binade_bounds(1) [OF p1] by simp
    then have "2 powi (binade m2) \<le> round64 m2" by (rule round64_lower [OF p2])
    moreover have "(2::real) powi (binade m1 + 1) \<le> 2 powi (binade m2)"
      using lt by (intro power_int_increasing) simp_all
    ultimately show ?thesis using round64_upper [OF p1] by linarith
  qed
qed

lemma representable_double:
  assumes "representable m"
  shows "representable (2 * m)"
proof -
  from assms obtain n k where "m = of_int n * 2 powi k" "0 \<le> n" "n < 2 ^ 53" "- 1074 \<le> k"
    by (auto simp: representable_def)
  then have "2 * m = of_int n * 2 powi (k + 1) \<and> 0 \<le> n \<and> n < 2 ^ 53 \<and> - 1074 \<le> k + 1"
    by (simp add: power_int_add)
  then show ?thesis unfolding representable_def by blast
qed

subsection \<open>Double precision: helper facts\<close>






lemma dless_Infinity_False [simp]: "dless (Infinity False) y = False"
  by (cases y) simp_all

lemma lit_tolerance:
  "lit (1 / 10 ^ 6) = Finite False (4722366482869645 / 4722366482869645213696)"
  unfolding lit_def
  by (simp, rule mk_FiniteI [where e = "- 20" and n = 4722366482869645])
     (simp_all add: power_int_minus)

lemma bisection_stuck:
  assumes f: "func (Infinity False) = Infinity False"
  shows "k \<le> 100 \<Longrightarrow>
    bisection_loop_d func tolerance (Finite False 100) (dnat k) (Infinity False)
      (Finite False mb) (Infinity False) fb = Some (Infinity False)"
proof (induction "100 - k" arbitrary: k)
  case 0
  then have "k = 100" by simp
  then show ?case
    by (subst bisection_loop_d.simps) (simp add: dnat_def rv_def)
next
  case (Suc d)
  then have k: "k < 100" and d: "d = 100 - Suc k" by simp_all
  have lt: "dless (dnat k) (Finite False 100)" using k by (simp add: dnat_def rv_def)
  have step: "bisection_loop_d func tolerance (Finite False 100) (dnat k) (Infinity False)
      (Finite False mb) (Infinity False) fb =
    bisection_loop_d func tolerance (Finite False 100) (dnat (Suc k)) (Infinity False)
      (Finite False mb) (Infinity False) fb"
    by (subst bisection_loop_d.simps)
       (simp add: lt f dsub_def d0_def dnat_succ [OF k] Let_def del: of_nat_Suc)
  show ?case using Suc.hyps(1) [OF d] k by (simp add: step del: of_nat_Suc)
qed

lemma round64_zero [simp]: "round64 0 = 0"
  by (simp add: round64_def)

lemma sround_mono:
  assumes "v1 \<le> v2"
  shows "sround v1 \<le> sround v2"
proof -
  consider "v2 < 0" | "v1 < 0" "0 \<le> v2" | "0 \<le> v1" by linarith
  then show ?thesis
  proof cases
    case 1
    then have "round64 (- v2) \<le> round64 (- v1)" using assms by (intro round64_mono) simp_all
    then show ?thesis using 1 assms by (simp add: sround_def)
  next
    case 2
    then show ?thesis
      using round64_nonneg [of "- v1"] round64_nonneg [of v2] by (simp add: sround_def)
  next
    case 3
    then show ?thesis using assms round64_mono [of v1 v2] by (simp add: sround_def)
  qed
qed

lemma sround_representable: "representable \<bar>v\<bar> \<Longrightarrow> sround v = v"
  by (cases "v < 0") (simp_all add: sround_def round64_representable)

lemma abs_sround: "\<bar>sround v\<bar> = round64 \<bar>v\<bar>"
  using round64_nonneg [of "\<bar>v\<bar>"] by (cases "v < 0") (simp_all add: sround_def)

lemma rv_abs_sround: "rv (v < 0) (round64 \<bar>v\<bar>) = sround v"
  by (cases "v < 0") (simp_all add: sround_def rv_def)

lemma dadd_value:
  assumes "is_finite x" and "is_finite y" and "\<bar>sround (dval x + dval y)\<bar> < 2 ^ 1024"
  shows "is_finite (dadd x y) \<and> dval (dadd x y) = sround (dval x + dval y)"
proof -
  from assms(1,2) obtain sx mx sy my where x: "x = Finite sx mx" and y: "y = Finite sy my"
    by (auto simp: is_finite_def split: double.splits)
  define v where "v = rv sx mx + rv sy my"
  have sum: "dval x + dval y = v" by (simp add: x y dval_def v_def)
  have eq: "dadd x y = (if v = 0 then Finite (sx \<and> sy) 0 else mk (v < 0) \<bar>v\<bar>)"
    by (simp add: x y v_def Let_def)
  show ?thesis
  proof (cases "v = 0")
    case True
    then show ?thesis unfolding sum eq by (simp add: dval_def is_finite_def sround_def rv_def)
  next
    case False
    have "round64 \<bar>v\<bar> < 2 ^ 1024" using assms(3) unfolding sum by (simp add: abs_sround)
    then have "dadd x y = Finite (v < 0) (round64 \<bar>v\<bar>)"
      using False unfolding eq by (simp add: mk_def)
    then show ?thesis
      unfolding sum using round64_nonneg [of "\<bar>v\<bar>"]
      by (simp add: dval_def is_finite_def rv_abs_sround)
  qed
qed

lemma ddiv2_value:
  assumes "is_finite x" and "\<bar>sround (dval x / 2)\<bar> < 2 ^ 1024"
  shows "is_finite (ddiv x (Finite False 2)) \<and> dval (ddiv x (Finite False 2)) = sround (dval x / 2)"
proof -
  from assms(1) obtain s m where x: "x = Finite s m" and m: "0 \<le> m"
    by (auto simp: is_finite_def split: double.splits)
  have val: "dval x = rv s m" by (simp add: x dval_def)
  have a: "\<bar>rv s m / 2\<bar> = m / 2" using m by (simp add: rv_def)
  have "round64 (m / 2) < 2 ^ 1024" using assms(2) unfolding val abs_sround a .
  then have d: "ddiv x (Finite False 2) = Finite s (round64 (m / 2))"
    by (simp add: x mk_def)
  have "rv s (round64 (m / 2)) = sround (rv s m / 2)"
  proof (cases "s \<and> 0 < m")
    case True
    then show ?thesis by (simp add: rv_def sround_def)
  next
    case False
    then have "rv s m / 2 = m / 2 \<or> m = 0" using m by (auto simp: rv_def)
    then show ?thesis using m False by (auto simp: rv_def sround_def)
  qed
  then show ?thesis unfolding d val using round64_nonneg [of "m / 2"] m
    by (simp add: dval_def is_finite_def)
qed

lemma midpoint_in_range:
  assumes x: "is_finite x" "A \<le> dval x" "dval x \<le> B"
    and y: "is_finite y" "A \<le> dval y" "dval y \<le> B"
    and A: "representable \<bar>A\<bar>" "\<bar>A\<bar> < 2 ^ 1023"
    and B: "representable \<bar>B\<bar>" "\<bar>B\<bar> < 2 ^ 1023"
  shows "is_finite (ddiv (dadd x y) (Finite False 2)) \<and>
         A \<le> dval (ddiv (dadd x y) (Finite False 2)) \<and>
         dval (ddiv (dadd x y) (Finite False 2)) \<le> B"
proof -
  define S where "S = sround (dval x + dval y)"
  have "representable \<bar>2 * A\<bar>" "representable \<bar>2 * B\<bar>"
    using representable_double [OF A(1)] representable_double [OF B(1)] by (simp_all add: abs_mult)
  then have twice: "sround (2 * A) = 2 * A" "sround (2 * B) = 2 * B"
    by (simp_all add: sround_representable)
  have "sround (2 * A) \<le> S" "S \<le> sround (2 * B)"
    unfolding S_def using x(2,3) y(2,3) by (intro sround_mono; simp)+
  then have S: "2 * A \<le> S" "S \<le> 2 * B" by (simp_all add: twice)
  then have "\<bar>S\<bar> < 2 ^ 1024" using A(2) B(2) by (simp add: abs_if split: if_splits)
  from dadd_value [OF x(1) y(1) this [unfolded S_def]]
  have s: "is_finite (dadd x y)" "dval (dadd x y) = S" by (simp_all add: S_def)
  define C where "C = sround (S / 2)"
  have "sround A \<le> C" "C \<le> sround B"
    unfolding C_def using S by (intro sround_mono; simp)+
  then have C: "A \<le> C" "C \<le> B" using A(1) B(1) by (simp_all add: sround_representable)
  then have "\<bar>C\<bar> < 2 ^ 1024" using A(2) B(2) by (simp add: abs_if split: if_splits)
  from ddiv2_value [OF s(1)] this have "is_finite (ddiv (dadd x y) (Finite False 2)) \<and>
      dval (ddiv (dadd x y) (Finite False 2)) = C"
    by (simp add: s(2) C_def)
  then show ?thesis using C by simp
qed

lemma bisection_loop_d_in_range:
  assumes "bisection_loop_d func tolerance maxIterations i a' b' fa fb = Some c"
    and "is_finite a'" "A \<le> dval a'" "dval a' \<le> B"
    and "is_finite b'" "A \<le> dval b'" "dval b' \<le> B"
    and "representable \<bar>A\<bar>" "\<bar>A\<bar> < 2 ^ 1023" "representable \<bar>B\<bar>" "\<bar>B\<bar> < 2 ^ 1023"
  shows "is_finite c \<and> A \<le> dval c \<and> dval c \<le> B"
  using assms
proof (induction func tolerance maxIterations i a' b' fa fb c
    rule: bisection_loop_d.raw_induct [rotated 1, consumes 1, case_names step])
  case (step loop func tolerance maxIterations i a' b' fa fb c)
  define m where "m = ddiv (dadd a' b') (Finite False 2)"
  have m: "is_finite m \<and> A \<le> dval m \<and> dval m \<le> B"
    unfolding m_def using step.prems by (intro midpoint_in_range) simp_all
  show ?case
  proof (cases "dless i maxIterations")
    case False
    then have "c = m" using step.hyps by (simp add: m_def)
    then show ?thesis using m by simp
  next
    case budget: True
    show ?thesis
    proof (cases "dless (dabs (func m)) tolerance \<or> dless (dabs (dsub b' a')) tolerance")
      case True
      then have "c = m" using step.hyps budget by (simp add: m_def [symmetric] Let_def)
      then show ?thesis using m by simp
    next
      case notconv: False
      show ?thesis
      proof (cases "dless (dmul fa (func m)) d0")
        case True
        then have "loop func tolerance maxIterations (dadd i d1) a' m fa (func m) = Some c"
          using step.hyps budget notconv by (simp add: m_def [symmetric] Let_def)
        from step.IH [OF this] m step.prems show ?thesis by simp
      next
        case False
        then have "loop func tolerance maxIterations (dadd i d1) m b' (func m) fb = Some c"
          using step.hyps budget notconv by (simp add: m_def [symmetric] Let_def)
        from step.IH [OF this] m step.prems show ?thesis by simp
      qed
    qed
  qed
qed







subsection \<open>Amortization schedules\<close>

text \<open>
  C1, as the code has it. For a whole number \<open>n\<close> of periods the balloon schedule has \<open>n\<close>
  rows, and their period numbers are 1, 2, ..., \<open>n\<close> in this order. The principal payment
  is 0 and the remaining balance is the principal on every row before the last; the last
  row (period \<open>n\<close>, present as soon as \<open>n \<ge> 1\<close>) pays the principal in full and leaves
  balance 0. The interest payment is principal times \<open>rate / 100\<close> on every row, with one
  exception: with timing \<^verbatim>\<open>'begin'\<close> the last row carries no interest. On every row
  the total payment is the principal payment plus the interest payment.
\<close>

theorem generateBalloonSchedule_rows:
  "length (generateBalloonSchedule P rate (real n) t) = n \<and>
   map period (generateBalloonSchedule P rate (real n) t) = [1..<Suc n] \<and>
   (\<forall>row \<in> set (generateBalloonSchedule P rate (real n) t).
      interestPayment row =
        (if period row = n \<and> t = Begin then 0 else P * (rate / 100)) \<and>
      principalPayment row = (if period row < n then 0 else P) \<and>
      remainingBalance row = (if period row < n then P else 0) \<and>
      totalPayment row = principalPayment row + interestPayment row) \<and>
   (1 \<le> n \<longrightarrow>
      period (last (generateBalloonSchedule P rate (real n) t)) = n \<and>
      principalPayment (last (generateBalloonSchedule P rate (real n) t)) = P \<and>
      remainingBalance (last (generateBalloonSchedule P rate (real n) t)) = 0)"
proof -
  let ?s = "generateBalloonSchedule P rate (real n) t"
  have s: "?s = map (balloon_row P (rate / 100) (real n) t) [1..<Suc n]"
    by (rule generateBalloonSchedule_nat)
  have per: "map period ?s = [1..<Suc n]"
    unfolding s by (simp add: balloon_row_def o_def split_def map_idI del: upt_Suc)
  have rows: "\<forall>row \<in> set ?s.
      interestPayment row =
        (if period row = n \<and> t = Begin then 0 else P * (rate / 100)) \<and>
      principalPayment row = (if period row < n then 0 else P) \<and>
      remainingBalance row = (if period row < n then P else 0) \<and>
      totalPayment row = principalPayment row + interestPayment row"
    by (auto simp: s balloon_row_def)
  have lst: "1 \<le> n \<Longrightarrow> last ?s = balloon_row P (rate / 100) (real n) t n"
    unfolding s by (simp add: last_map)
  have "1 \<le> n \<longrightarrow> period (last ?s) = n \<and> principalPayment (last ?s) = P \<and>
      remainingBalance (last ?s) = 0"
    using lst by (simp add: balloon_row_def)
  moreover have "length ?s = n" by (simp add: s)
  ultimately show ?thesis using per rows by blast
qed

theorem generateBalloonSchedule_rows_witness:
  "map period (generateBalloonSchedule 100 10 2 Begin) = [1, 2] \<and>
   interestPayment (generateBalloonSchedule 100 10 2 Begin ! 0) = 10 \<and>
   interestPayment (generateBalloonSchedule 100 10 2 Begin ! 1) = 0 \<and>
   principalPayment (generateBalloonSchedule 100 10 2 Begin ! 0) = 0 \<and>
   principalPayment (last (generateBalloonSchedule 100 10 2 Begin)) = 100 \<and>
   remainingBalance (last (generateBalloonSchedule 100 10 2 Begin)) = 0"
proof -
  let ?s = "generateBalloonSchedule 100 10 2 Begin"
  from generateBalloonSchedule_rows [of 100 10 2 Begin]
  have per: "map period ?s = [1, 2]"
    and len: "length ?s = 2"
    and rows: "\<forall>row \<in> set ?s. interestPayment row =
        (if period row = 2 \<and> Begin = Begin then 0 else 100 * (10 / 100)) \<and>
      principalPayment row = (if period row < 2 then 0 else 100)"
    and lst: "principalPayment (last ?s) = 100" "remainingBalance (last ?s) = 0"
    by (simp_all add: numeral_2_eq_2)
  have p: "period (?s ! 0) = 1" "period (?s ! 1) = 2"
    using arg_cong [OF per, of "\<lambda>xs. xs ! 0"] arg_cong [OF per, of "\<lambda>xs. xs ! 1"] len
    by simp_all
  have mem: "?s ! 0 \<in> set ?s" "?s ! 1 \<in> set ?s" using len by simp_all
  from rows mem p lst per show ?thesis by simp
qed

text \<open>
  C1, as stated, asks for interest principal times \<open>rate / 100\<close> on the final row for both
  timings. With timing \<^verbatim>\<open>'begin'\<close>, principal 100, rate 10 and two periods, the second
  (final) row has interest 0, not 10.
\<close>

theorem generateBalloonSchedule_begin_counterexample:
  "interestPayment (generateBalloonSchedule 100 10 2 Begin ! 1) \<noteq> 100 * (10 / 100)"
  by (simp add: generateBalloonSchedule_def balloon_loop.simps balloon_row_def)

text \<open>
  C2, as the code has it. The rate is a percentage per period: the first row of the
  shpitzer schedule for principal 1200, rate 12, 12 periods and timing \<^verbatim>\<open>'end'\<close> pays
  principal 100 and interest 1200 times 0.12 = 144, 244 in total, and leaves 1100.
\<close>

theorem generateShpitzerSchedule_first_row:
  "hd (generateShpitzerSchedule 1200 12 12 End) =
     \<lparr>period = 1, principalPayment = 100, interestPayment = 144, totalPayment = 244,
      remainingBalance = 1100\<rparr>"
  by (simp add: generateShpitzerSchedule_def shpitzer_loop.simps [of _ _ _ _ "Suc 0"]
        shpitzer_step_def)

text \<open>
  C2, as stated, gives that first row interest 12 and total payment 112; the row computed
  is a different one.
\<close>

theorem generateShpitzerSchedule_first_row_counterexample:
  "hd (generateShpitzerSchedule 1200 12 12 End) \<noteq>
     \<lparr>period = 1, principalPayment = 100, interestPayment = 12, totalPayment = 112,
      remainingBalance = 1100\<rparr>"
  by (simp add: generateShpitzerSchedule_def shpitzer_loop.simps [of _ _ _ _ "Suc 0"]
        shpitzer_step_def)

text \<open>
  C3. The regular schedule is documented as having equal total payments. With timing
  \<^verbatim>\<open>'begin'\<close> it has not: for principal 210, rate 10 and two periods the total payments
  are 111 and 101.
\<close>

theorem generateRegularSchedule_begin_totals:
  "map totalPayment (generateRegularSchedule 210 10 2 Begin) = [111, 101]"
  by (simp add: generateRegularSchedule_def regular_pmt_def Math_pow_examples
        regular_loop.simps regular_step_def)

text \<open>
  C7. Through \<^verbatim>\<open>generateSchedule\<close>, the regular schedule with timing \<^verbatim>\<open>'begin'\<close> does
  not repay the principal: for principal 110, rate 10 and one period the principal
  payments sum to 100 and the last row still has a remaining balance of 10.
\<close>

theorem generateSchedule_regular_begin_principal_sum:
  "sum_list (map principalPayment (generateSchedule 110 10 1 Regular Begin None)) = 100 \<and>
   remainingBalance (last (generateSchedule 110 10 1 Regular Begin None)) = 10"
  by (simp add: generateSchedule_def generateRegularSchedule_def regular_pmt_def
        Math_pow_examples regular_loop.simps regular_step_def)

text \<open>
  C4. The grace schedule does not depend on the \<^verbatim>\<open>gracePeriods\<close> argument: any two
  values of it give the same schedule, for every principal, rate, number of periods and
  timing. For a whole number \<open>n\<close> of periods, every row before the last is interest-only,
  whatever the declared grace length.
\<close>

theorem generateGraceSchedule_ignores_gracePeriods:
  "generateGraceSchedule principal' rate periods g1 paymentTiming =
     generateGraceSchedule principal' rate periods g2 paymentTiming \<and>
   (\<forall>row \<in> set (generateGraceSchedule principal' rate (real n) g1 paymentTiming).
      period row < n \<longrightarrow>
        principalPayment row = 0 \<and> interestPayment row = principal' * (rate / 100) \<and>
        remainingBalance row = principal')"
  by (auto simp: generateGraceSchedule_nat grace_row_def) (simp add: generateGraceSchedule_def)

theorem generateGraceSchedule_ignores_gracePeriods_witness:
  "generateGraceSchedule 100 10 3 1 End = generateGraceSchedule 100 10 3 2 End \<and>
   principalPayment (generateGraceSchedule 100 10 3 1 End ! 1) = 0 \<and>
   principalPayment (generateGraceSchedule 100 10 3 2 End ! 1) = 0"
proof -
  let ?s = "generateGraceSchedule 100 10 3 1 End"
  have row: "?s ! 1 \<in> set ?s" "period (?s ! 1) = 2"
    by (simp_all add: generateGraceSchedule_def grace_loop.simps grace_row_def)
  from generateGraceSchedule_ignores_gracePeriods [of 100 10 3 1 End 2 3]
  have eq: "?s = generateGraceSchedule 100 10 3 2 End"
    and rows: "\<forall>row \<in> set ?s. period row < 3 \<longrightarrow> principalPayment row = 0"
    by simp_all
  from rows row have "principalPayment (?s ! 1) = 0" by simp
  then show ?thesis using eq by simp
qed

subsection \<open>What every schedule satisfies\<close>

text \<open>
  For a whole number \<open>n\<close> of periods, each of the four schedule types and both timings,
  \<^verbatim>\<open>generateSchedule\<close> returns rows numbered 1 to \<open>n\<close> in order (so \<open>n\<close> rows), and on
  every row the total payment is the principal payment plus the interest payment.
\<close>

theorem generateSchedule_structure:
  "map period (generateSchedule P rate (real n) ty t g) = [1..<Suc n] \<and>
   (\<forall>row \<in> set (generateSchedule P rate (real n) ty t g).
      totalPayment row = principalPayment row + interestPayment row)"
proof (cases ty)
  case Shpitzer
  then show ?thesis using shpitzer_loop_structure [of "P / real n" "rate / 100" n t 1 P]
    by (simp add: generateSchedule_def generateShpitzerSchedule_def)
next
  case Regular
  then show ?thesis
    using regular_loop_structure
      [of "regular_pmt P (rate / 100) (real n) t" "rate / 100" n t 1 P]
    by (simp add: generateSchedule_def generateRegularSchedule_loop)
next
  case Balloon
  then show ?thesis
    by (simp add: generateSchedule_def generateBalloonSchedule_nat balloon_row_def o_def
        map_idI split_def)
next
  case Grace
  then show ?thesis
    by (simp add: generateSchedule_def generateGraceSchedule_nat grace_row_def o_def
        map_idI split_def)
qed

text \<open>
  For a principal \<open>\<ge> 0\<close>, a rate \<open>\<ge> 0\<close> and \<open>n \<ge> 1\<close> periods, the remaining balance never
  grows from one row to the next, for each schedule type and both timings.
\<close>

theorem generateSchedule_balance_nonincreasing:
  assumes "0 \<le> P" and "0 \<le> rate" and "1 \<le> n"
  shows "sorted_wrt (\<ge>) (map remainingBalance (generateSchedule P rate (real n) ty t g))"
proof (cases ty)
  case Shpitzer
  have c: "0 \<le> P / real n" using assms(1) by simp
  from shpitzer_loop_balance [OF c assms(1)] Shpitzer
  show ?thesis by (simp add: generateSchedule_def generateShpitzerSchedule_def)
next
  case Balloon
  then show ?thesis using final_only_sorted [OF assms(1), of n]
    by (simp add: generateSchedule_def generateBalloonSchedule_nat balloon_row_simps o_def
        del: upt_Suc)
next
  case Grace
  then show ?thesis using final_only_sorted [OF assms(1), of n]
    by (simp add: generateSchedule_def generateGraceSchedule_nat grace_row_simps o_def
        del: upt_Suc)
next
  case Regular
  define r where "r = rate / 100"
  define pmt where "pmt = regular_pmt P r (real n) t"
  have r: "0 \<le> r" using assms(2) by (simp add: r_def)
  have pmt: "0 \<le> pmt \<and> (t = End \<longrightarrow> P * r \<le> pmt)"
  proof (cases "r = 0")
    case True
    then show ?thesis using assms(1) by (simp add: pmt_def regular_pmt_zero_rate)
  next
    case False
    then have "0 < r" using r by simp
    then show ?thesis
      using regular_pmt_end(1,2) [OF assms(1) _ assms(3), of r]
        regular_pmt_begin_nonneg [OF assms(1) _ assms(3), of r]
      by (cases t) (simp_all add: pmt_def)
  qed
  from regular_loop_balance [OF r _ _ assms(1) order_refl, of pmt t n 1] pmt Regular
  show ?thesis
    by (simp add: generateSchedule_def generateRegularSchedule_loop pmt_def r_def)
qed

text \<open>
  Under the same conditions the principal payments of a schedule add up to the principal,
  for every schedule type and timing but one: the regular schedule with timing
  \<^verbatim>\<open>'begin'\<close> at a non-zero rate is left out.
\<close>

theorem generateSchedule_principal_sum:
  assumes "0 \<le> P" and "0 \<le> rate" and "1 \<le> n"
    and "ty \<noteq> Regular \<or> t = End \<or> rate = 0"
  shows "sum_list (map principalPayment (generateSchedule P rate (real n) ty t g)) = P"
proof (cases ty)
  case Shpitzer
  have c: "0 \<le> P / real n" using assms(1) by simp
  have "P = real (Suc n - 1) * (P / real n)" using assms(3) by simp
  from shpitzer_loop_principal_sum [OF c _ this] assms(3) Shpitzer
  show ?thesis by (simp add: generateSchedule_def generateShpitzerSchedule_def)
next
  case Balloon
  then show ?thesis using final_only_sum [OF assms(3), of P]
    by (simp add: generateSchedule_def generateBalloonSchedule_nat balloon_row_simps o_def
        del: upt_Suc)
next
  case Grace
  then show ?thesis using final_only_sum [OF assms(3), of P]
    by (simp add: generateSchedule_def generateGraceSchedule_nat grace_row_simps o_def
        del: upt_Suc)
next
  case Regular
  show ?thesis
  proof (cases "rate = 0")
    case True
    have c: "0 \<le> P / real n" using assms(1) by simp
    have "P = real (Suc n - 1) * (P / real n)" using assms(3) by simp
    from regular_loop_zero_rate [OF c _ this, where t = t] assms(3) True Regular
    show ?thesis
      by (simp add: generateSchedule_def generateRegularSchedule_loop regular_pmt_zero_rate)
  next
    case False
    then have r: "0 < rate / 100" and t: "t = End" using assms(2,4) Regular by simp_all
    note pmt = regular_pmt_end [OF assms(1) r assms(3)]
    have "P * (rate / 100) =
        regular_pmt P (rate / 100) (real n) End * (1 - inverse (1 + rate / 100) ^ (Suc n - 1))"
      using pmt(3) by simp
    from regular_loop_end_closed [OF r pmt(1) _ this] assms(3) t Regular
    show ?thesis by (simp add: generateSchedule_def generateRegularSchedule_loop)
  qed
qed

text \<open>
  The regular schedule with timing \<^verbatim>\<open>'end'\<close> (and with either timing at rate zero) has
  the same total payment on every row: the fixed payment computed before the loop.
\<close>

theorem generateRegularSchedule_level_payment:
  assumes "0 \<le> P" and "0 \<le> rate" and "1 \<le> n" and "t = End \<or> rate = 0"
  shows "\<forall>row \<in> set (generateRegularSchedule P rate (real n) t).
           totalPayment row = regular_pmt P (rate / 100) (real n) t"
proof (cases "rate = 0")
  case True
  have "P = real (Suc n - 1) * (P / real n)" using assms(3) by simp
  from regular_loop_zero_rate [OF _ _ this, where t = t] assms(1,3) True
  show ?thesis by (simp add: generateRegularSchedule_loop regular_pmt_zero_rate)
next
  case False
  then have r: "0 < rate / 100" and t: "t = End" using assms(2,4) by simp_all
  note pmt = regular_pmt_end [OF assms(1) r assms(3)]
  have "P * (rate / 100) =
        regular_pmt P (rate / 100) (real n) End * (1 - inverse (1 + rate / 100) ^ (Suc n - 1))"
    using pmt(3) by simp
  from regular_loop_end_closed [OF r pmt(1) _ this] assms(3) t
  show ?thesis by (simp add: generateRegularSchedule_loop)
qed

subsection \<open>Root finder\<close>



text \<open>In double precision, on the bracket from \<open>2\<^sup>1\<^sup>0\<^sup>2\<^sup>3\<close> to \<open>3 \<cdot> 2\<^sup>1\<^sup>0\<^sup>2\<^sup>2\<close> the sum of the
  endpoints overflows: every midpoint is infinite, and so is the value returned.\<close>

lemma bisectionMethod_d_overflow:
  "bisectionMethod_d (\<lambda>x. dsub x (Finite False (2 ^ 1023)))
     (Finite False (2 ^ 1023)) (Finite False (3 * 2 ^ 1022)) (lit (1 / 10 ^ 6)) (Finite False 100)
   = Some (Some (Infinity False))"
proof -
  define A :: real where "A = 2 ^ 1023"
  define B :: real where "B = 3 * 2 ^ 1022"
  define C :: real where "C = 2 ^ 1022"
  let ?a = "Finite False A" and ?b = "Finite False B"
  let ?f = "\<lambda>x. dsub x ?a"
  have pos: "0 < A" "0 < B" "0 < C" by (simp_all add: A_def B_def C_def)
  have BA: "B - A = C" by (simp add: A_def B_def C_def)
  have fa: "?f ?a = Finite False 0" by (simp add: dsub_def rv_def)
  have "mk False C = Finite False C"
    unfolding C_def
    by (rule mk_FiniteI [where e = 1022 and n = "2 ^ 52"]) (simp_all add: power_int_minus)
  then have fb: "?f ?b = Finite False C"
    using pos by (simp add: dsub_def rv_def BA)
  have "mk False (A + B) = Infinity False"
    unfolding A_def B_def
    apply (simp add: mk_def)
    apply (subst round64_eval [where e = 1024])
    apply (simp_all add: round_even_def power_int_diff)
    done
  then have sum: "dadd ?a ?b = Infinity False"
    using pos by (simp add: rv_def Let_def)
  have finf: "?f (Infinity False) = Infinity False" by (simp add: dsub_def)
  have one: "dadd (Finite False 0) d1 = Finite False 1"
    using dnat_succ [of 0] by (simp add: dnat_def del: dadd.simps)
  have tol: "\<not> dless (Finite False C) (lit (1 / 10 ^ 6))"
    unfolding lit_tolerance by (simp add: rv_def C_def)
  have first: "bisection_loop_d ?f (lit (1 / 10 ^ 6)) (Finite False 100) d0 ?a ?b
      (Finite False 0) (Finite False C) =
    bisection_loop_d ?f (lit (1 / 10 ^ 6)) (Finite False 100) (dnat 1) (Infinity False) ?b
      (Infinity False) (Finite False C)"
    using tol
    by (subst bisection_loop_d.simps)
       (simp add: sum finf fb one Let_def d0_def dnat_def rv_def del: dadd.simps)
  have stuck: "bisection_loop_d ?f (lit (1 / 10 ^ 6)) (Finite False 100) (dnat 1)
      (Infinity False) ?b (Infinity False) (Finite False C) = Some (Infinity False)"
    by (rule bisection_stuck [where func = "\<lambda>x. dsub x (Finite False A)", OF finf]) simp
  have prod: "\<not> dless d0 (dmul (Finite False 0) (Finite False C))"
    by (simp add: d0_def rv_def)
  have "bisectionMethod_d ?f ?a ?b (lit (1 / 10 ^ 6)) (Finite False 100) =
      map_option Some (bisection_loop_d ?f (lit (1 / 10 ^ 6)) (Finite False 100) d0 ?a ?b
        (Finite False 0) (Finite False C))"
    unfolding bisectionMethod_d_def Let_def fa fb using prod by (simp only: if_False)
  also have "\<dots> = Some (Some (Infinity False))"
    by (simp only: first stuck option.map)
  finally have "bisectionMethod_d ?f ?a ?b (lit (1 / 10 ^ 6)) (Finite False 100) =
      Some (Some (Infinity False))" .
  then show ?thesis by (simp only: A_def B_def)
qed

lemma bisectionMethod_d_example:
  "bisectionMethod_d (\<lambda>x. dsub x (Finite False 1)) (Finite False 0) (Finite False 2)
     (lit (1 / 10 ^ 6)) (Finite False 100) = Some (Some (Finite False 1))"
proof -
  have w0: "dsub (Finite False 0) (Finite False 1)
      = Finite True 1"
    by (simp add: dsub_def rv_def,
        rule mk_FiniteI [where e = "0" and n = 4503599627370496])
       (simp_all add: power_int_minus)
  have w1: "dsub (Finite False 2) (Finite False 1)
      = Finite False 1"
    by (simp add: dsub_def rv_def,
        rule mk_FiniteI [where e = "0" and n = 4503599627370496])
       (simp_all add: power_int_minus)
  have w2: "dmul (Finite True 1) (Finite False 1)
      = Finite True 1"
    by (simp add: rv_def,
        rule mk_FiniteI [where e = "0" and n = 4503599627370496])
       (simp_all add: power_int_minus)
  have w3: "dadd (Finite False 0) (Finite False 2)
      = Finite False 2"
    by (simp add: rv_def,
        rule mk_FiniteI [where e = "1" and n = 4503599627370496])
       (simp_all add: power_int_minus)
  have w4: "ddiv (Finite False 2) (Finite False 2)
      = Finite False 1"
    by (simp add: rv_def,
        rule mk_FiniteI [where e = "0" and n = 4503599627370496])
       (simp_all add: power_int_minus)
  have w5: "dsub (Finite False 1) (Finite False 1)
      = Finite False 0"
    by (simp add: dsub_def rv_def)
  have lt: "dless (Finite False 0) (Finite False 100)" by (simp add: rv_def)
  have conv: "dless (dabs (Finite False 0)) (lit (1 / 10 ^ 6))"
    unfolding lit_tolerance by (simp add: rv_def)
  have loop: "bisection_loop_d (\<lambda>x. dsub x (Finite False 1)) (lit (1 / 10 ^ 6))
      (Finite False 100) (Finite False 0) (Finite False 0) (Finite False 2)
      (Finite True 1) (Finite False 1) = Some (Finite False 1)"
    by (subst bisection_loop_d.simps) (simp only: lt if_True Let_def w0 w1 w2 w3 w4 w5 conv simp_thms)
  have start: "\<not> dless d0 (dmul (Finite True 1) (Finite False 1))"
    by (simp only: w0 w1 w2 w3 w4 w5) (simp add: d0_def rv_def)
  show ?thesis
    unfolding bisectionMethod_d_def Let_def
    using start by (simp only: w0 w1 w2 w3 w4 w5 if_False d0_def loop option.map)
qed

text \<open>
  C10, as the code has it. In double precision: when the endpoints are finite, \<open>a \<le> b\<close>,
  and both are smaller in magnitude than \<open>2\<^sup>1\<^sup>0\<^sup>2\<^sup>3\<close> (so that the sum of two numbers of the
  bracket cannot overflow), every number \<^verbatim>\<open>bisectionMethod\<close> returns is finite and lies
  in \<open>[a, b]\<close>, be it a converged midpoint or the midpoint returned when the iterations
  are used up. This holds for every function, tolerance and iteration budget.
\<close>

theorem bisectionMethod_d_in_bracket:
  assumes "a = Finite sa ma" and "b = Finite sb mb"
    and "representable ma" and "representable mb"
    and "ma < 2 ^ 1023" and "mb < 2 ^ 1023"
    and "dle a b"
    and "bisectionMethod_d func a b tolerance maxIterations = Some (Some c)"
  shows "is_finite c \<and> dle a c \<and> dle c b"
proof -
  have nn: "0 \<le> ma" "0 \<le> mb" using assms(3,4) by (auto simp: representable_def)
  have ab: "rv sa ma \<le> rv sb mb" using assms(7) by (auto simp: dle_def assms(1,2))
  have loop: "bisection_loop_d func tolerance maxIterations d0 a b (func a) (func b) = Some c"
    using assms(8) by (auto simp: bisectionMethod_d_def Let_def split: if_splits)
  have abs: "\<bar>rv sa ma\<bar> = ma" "\<bar>rv sb mb\<bar> = mb" using nn by (simp_all add: rv_def)
  from bisection_loop_d_in_range [OF loop, of "rv sa ma" "rv sb mb"]
  have "is_finite c \<and> rv sa ma \<le> dval c \<and> dval c \<le> rv sb mb"
    using assms(3-6) nn ab by (simp add: assms(1,2) is_finite_def dval_def abs)
  then show ?thesis
    by (cases c) (auto simp: is_finite_def dval_def dle_def assms(1,2))
qed

theorem bisectionMethod_d_in_bracket_witness:
  "bisectionMethod_d (\<lambda>x. dsub x (Finite False 1)) (Finite False 0) (Finite False 2)
     (lit (1 / 10 ^ 6)) (Finite False 100) = Some (Some (Finite False 1)) \<and>
   dle (Finite False 0) (Finite False 1) \<and> dle (Finite False 1) (Finite False 2)"
proof -
  have r: "representable 0" "representable 2"
    using representable_nat [of 0] representable_nat [of 2] by simp_all
  have b: "(0::real) < 2 ^ 1023" "(2::real) < 2 ^ 1023" by simp_all
  have le: "dle (Finite False 0) (Finite False 2)" by (simp add: dle_def rv_def)
  from bisectionMethod_d_in_bracket [OF refl refl r b le bisectionMethod_d_example]
  show ?thesis using bisectionMethod_d_example by simp
qed

text \<open>
  C10, as stated, has no bound on the endpoints. In double precision, on the bracket from
  \<open>2\<^sup>1\<^sup>0\<^sup>2\<^sup>3\<close> to \<open>3 \<cdot> 2\<^sup>1\<^sup>0\<^sup>2\<^sup>2\<close> (about \<open>0.9 \<cdot> 10\<^sup>3\<^sup>0\<^sup>8\<close> and \<open>1.3 \<cdot> 10\<^sup>3\<^sup>0\<^sup>8\<close>), with the function
  \<open>x - 2\<^sup>1\<^sup>0\<^sup>2\<^sup>3\<close>, tolerance \<open>10\<^sup>-\<^sup>6\<close> and 100 iterations, the value returned is
  \<^verbatim>\<open>Infinity\<close>, which is not in the bracket.
\<close>

theorem bisectionMethod_d_overflow_counterexample:
  "bisectionMethod_d (\<lambda>x. dsub x (Finite False (2 ^ 1023)))
     (Finite False (2 ^ 1023)) (Finite False (3 * 2 ^ 1022)) (lit (1 / 10 ^ 6)) (Finite False 100)
   = Some (Some (Infinity False)) \<and>
   dle (Finite False (2 ^ 1023)) (Finite False (3 * 2 ^ 1022)) \<and>
   \<not> dle (Infinity False) (Finite False (3 * 2 ^ 1022))"
proof -
  have "dle (Finite False (2 ^ 1023)) (Finite False (3 * 2 ^ 1022))"
    by (simp add: dle_def rv_def)
  moreover have "\<not> dle (Infinity False) (Finite False (3 * 2 ^ 1022))"
    by (simp add: dle_def)
  ultimately show ?thesis using bisectionMethod_d_overflow by blast
qed

subsection \<open>Time value of money\<close>










text \<open>
  C9. With an empty rate series \<^verbatim>\<open>calculateFVVariable\<close> returns \<^verbatim>\<open>pv\<close> unchanged, for
  every payment amount and both timings: no compounding step runs and no payment is added.
\<close>

theorem calculateFVVariable_empty:
  "calculateFVVariable pv [] pmt paymentTiming = pv"
  by (simp add: calculateFVVariable_def)

end
